theory Spec2Isabelle
  imports Main "HOL-Library.Word"
begin

unbundle bit_operations_syntax

section \<open>C library functions the simulator calls\<close>

text \<open>
  A \<open>std::string\<close> is a \<open>string\<close> (a list of 8-bit characters) and may hold NUL
  characters; \<open>c_str()\<close> hands the C library the characters up to the first NUL.
\<close>

definition c_str :: "string \<Rightarrow> string" where
  "c_str s = takeWhile (\<lambda>c. c \<noteq> CHR 0x00) s"

text \<open>\<open>isspace\<close> in the C locale: space, and \<open>\t \n \v \f \r\<close> (codes 9 to 13).\<close>

definition isspace :: "char \<Rightarrow> bool" where
  "isspace c = (c = CHR '' '' \<or> (9 \<le> (of_char c :: nat) \<and> (of_char c :: nat) \<le> 13))"

text \<open>The value of a character as a digit: \<open>0-9\<close>, then letters of either case from 10 on.\<close>

definition digit_value :: "char \<Rightarrow> nat option" where
  "digit_value c =
     (let n = (of_char c :: nat)
      in if 48 \<le> n \<and> n \<le> 57 then Some (n - 48)
         else if 65 \<le> n \<and> n \<le> 90 then Some (n - 55)
         else if 97 \<le> n \<and> n \<le> 122 then Some (n - 87)
         else None)"

definition is_digit :: "nat \<Rightarrow> char \<Rightarrow> bool" where
  "is_digit base c = (case digit_value c of None \<Rightarrow> False | Some d \<Rightarrow> d < base)"

definition digit_or_zero :: "char \<Rightarrow> int" where
  "digit_or_zero c = (case digit_value c of None \<Rightarrow> 0 | Some d \<Rightarrow> int d)"

definition has_0x_prefix :: "string \<Rightarrow> bool" where
  "has_0x_prefix s =
     (case s of
        c0 # cx # ch # _ \<Rightarrow> c0 = CHR ''0'' \<and> (cx = CHR ''x'' \<or> cx = CHR ''X'') \<and> is_digit 16 ch
      | _ \<Rightarrow> False)"

definition LONG_MAX :: int where
  "LONG_MAX = 2 ^ 63 - 1"

text \<open>
  \<open>strtol(nptr, NULL, base)\<close> for base 10 and base 16 on a 64-bit \<open>long\<close>: leading white
  space is skipped, one sign is read, base 16 accepts a \<open>0x\<close> prefix in front of a
  hexadecimal digit, the longest run of digits of the base is converted, and the result
  is clamped to the range of \<open>long\<close>. Without any digit the result is 0: \<open>strtol\<close>
  reports no error to a caller that passes \<open>NULL\<close> as end pointer.
\<close>

definition strtol :: "string \<Rightarrow> nat \<Rightarrow> int" where
  "strtol nptr base =
     (let s0 = dropWhile isspace (c_str nptr);
          neg = (case s0 of [] \<Rightarrow> False | c # _ \<Rightarrow> c = CHR ''-'');
          s1 = (case s0 of [] \<Rightarrow> [] | c # r \<Rightarrow> if c = CHR ''-'' \<or> c = CHR ''+'' then r else s0);
          s2 = (if base = 16 \<and> has_0x_prefix s1 then drop 2 s1 else s1);
          ds = takeWhile (is_digit base) s2;
          v = foldl (\<lambda>acc c. acc * int base + digit_or_zero c) 0 ds
      in if neg then max (- LONG_MAX - 1) (- v) else min LONG_MAX v)"

text \<open>
  \<open>strncasecmp(s, "XX", 2) == 0\<close>: the first two characters of the C string \<open>s\<close> are
  both \<open>x\<close> or \<open>X\<close>.
\<close>

definition is_REQUEST_PLACEHOLDER :: "string \<Rightarrow> bool" where
  "is_REQUEST_PLACEHOLDER s =
     (case c_str s of
        c1 # c2 # _ \<Rightarrow> (c1 = CHR ''x'' \<or> c1 = CHR ''X'') \<and> (c2 = CHR ''x'' \<or> c2 = CHR ''X'')
      | _ \<Rightarrow> False)"

text \<open>\<open>printf("%X", n)\<close>: upper-case hexadecimal without leading zeros.\<close>

definition HEX_LUT :: string where
  "HEX_LUT = ''0123456789ABCDEF''"

fun printf_X :: "nat \<Rightarrow> string" where
  "printf_X n = (if n < 16 then [HEX_LUT ! n] else printf_X (n div 16) @ [HEX_LUT ! (n mod 16)])"

declare printf_X.simps [simp del]

section \<open>Helpers of the ECU script (ecu\_lua\_script.cpp)\<close>

type_synonym byte = "8 word"

text \<open>
  \<open>literalHexStrToBytes\<close>: the blanks are removed (only \<open>' '\<close>), then every two
  characters, and a last single one, go through \<open>strtol(_, NULL, 16)\<close> and a cast to
  \<open>uint8_t\<close>.
\<close>

fun hexPairs :: "string \<Rightarrow> byte list" where
  "hexPairs [] = []"
| "hexPairs [c] = [word_of_int (strtol [c] 16)]"
| "hexPairs (c1 # c2 # rest) = word_of_int (strtol [c1, c2] 16) # hexPairs rest"

definition literalHexStrToBytes :: "string \<Rightarrow> byte list" where
  "literalHexStrToBytes hexString = hexPairs (filter (\<lambda>c. c \<noteq> CHR '' '') hexString)"

text \<open>
  Modelled from the spec: \<open>crc_ccitt_ffff\<close> of libcrc (\<open>libcrc/crcccitt.c\<close> is included by
  the source but is not among the source files): CRC-CCITT with polynomial \<open>0x1021\<close> and
  seed \<open>0xFFFF\<close>, most significant bit first, over the bytes given.
\<close>

fun crc_shift :: "nat \<Rightarrow> 16 word \<Rightarrow> 16 word" where
  "crc_shift 0 crc = crc"
| "crc_shift (Suc k) crc =
     crc_shift k (if bit crc 15 then push_bit 1 crc XOR 0x1021 else push_bit 1 crc)"

definition update_crc_ccitt :: "16 word \<Rightarrow> byte \<Rightarrow> 16 word" where
  "update_crc_ccitt crc c = crc_shift 8 (crc XOR push_bit 8 (ucast c))"

definition crc_ccitt_ffff :: "byte list \<Rightarrow> 16 word" where
  "crc_ccitt_ffff input = foldl update_crc_ccitt 0xFFFF input"

text \<open>
  The accumulator \<open>receivedDataBytes\<close> is a file-level \<open>static string\<close>; the functions
  that use it take it as argument and return its new value.

  \<open>getDataBytes\<close> appends the message without blanks and without its first four
  characters. \<open>substr(4, _)\<close> throws \<open>std::out_of_range\<close> on a shorter string, which
  ends the program since the function is \<open>noexcept\<close>: the model returns \<open>None\<close>.
\<close>

definition getDataBytes :: "string \<Rightarrow> string \<Rightarrow> string option" where
  "getDataBytes msg receivedDataBytes =
     (let tmpStr = filter (\<lambda>c. c \<noteq> CHR '' '') msg
      in if length tmpStr < 4 then None else Some (receivedDataBytes @ drop 4 tmpStr))"

text \<open>
  \<open>createHash\<close> returns the answer and the accumulator it leaves. \<open>snprintf(hash, 5,
  "%X", crc2)\<close> never truncates: a 16-bit value has at most four hexadecimal digits.
\<close>

definition createHash :: "string \<Rightarrow> string \<times> string" where
  "createHash receivedDataBytes =
     (let resp = literalHexStrToBytes receivedDataBytes;
          crc2 = crc_ccitt_ffff resp;
          hash = printf_X (unat crc2);
          answer = (if length hash mod 2 \<noteq> 0 then ''0'' @ hash else hash)
      in (answer, ''''))"

text \<open>
  \<open>toByteResponse\<close>. Both branches fill a character buffer \<open>str\<close> of \<open>space\<close>
  characters from left to right, three characters in each round of a loop, overwrite the
  last blank with NUL and return the buffer as a C string.

  \<open>hexLoop\<close> is the loop \<open>for (i = _, j = _; i < space; i += CHAR_SP, j -= 8)\<close> that writes
  two digits of \<open>value\<close> and a blank, \<open>zeroLoop\<close> the loop that writes \<open>00\<close> and a
  blank. In the source \<open>j\<close> is a \<open>size_t\<close> and wraps around in the last \<open>j -= 8\<close>, after
  its last use; in every round that reads it, \<open>j\<close> is at least 4.
\<close>

definition MAX_UDS_SIZE :: "32 word" where
  "MAX_UDS_SIZE = 4096"

function hexLoop :: "32 word \<Rightarrow> nat \<Rightarrow> nat \<Rightarrow> nat \<Rightarrow> string" where
  "hexLoop v i j space =
     (if i < space
      then [HEX_LUT ! unat (drop_bit j v AND 0x0F),
            HEX_LUT ! unat (drop_bit (j - 4) v AND 0x0F),
            CHR '' ''] @ hexLoop v (i + 3) (j - 8) space
      else [])"
  by pat_completeness auto
termination
  by (relation "measure (\<lambda>(v, i, j, space). space - i)") auto

declare hexLoop.simps [simp del]

function zeroLoop :: "nat \<Rightarrow> nat \<Rightarrow> string" where
  "zeroLoop i valSpace =
     (if i < valSpace then ''00 '' @ zeroLoop (i + 3) valSpace else [])"
  by pat_completeness auto
termination
  by (relation "measure (\<lambda>(i, valSpace). valSpace - i)") auto

declare zeroLoop.simps [simp del]

text \<open>
  \<open>zeroFill\<close> is the \<open>int\<close> made of \<open>len - sizeof(value)\<close>, negative for a \<open>len\<close> below 4.
  With \<open>len = 0\<close> the buffer has no character and \<open>str[space - 1]\<close> writes in front of
  it: the model returns \<open>None\<close> there.
\<close>

definition toByteResponse :: "32 word \<Rightarrow> 32 word \<Rightarrow> string option" where
  "toByteResponse v len0 =
     (let len = (if len0 > MAX_UDS_SIZE then MAX_UDS_SIZE else len0);
          zeroFill = sint (len - 4)
      in if zeroFill < 0 then
           (let space = unat len * 3;
                str = hexLoop v 0 ((unat len * 2 - 1) * 4) space
            in if space = 0 then None
               else Some (c_str (str[space - 1 := CHR 0x00])))
         else
           (let space = (4 + nat zeroFill) * 3;
                valSpace = nat zeroFill * 3;
                str = zeroLoop 0 valSpace @ hexLoop v valSpace ((4 * 2 - 1) * 4) space
            in Some (c_str (str[space - 1 := CHR 0x00]))))"


text \<open>\<open>cleanupString\<close> removes the separator characters \<open>_ . , ;\<close> blank, \<open>#\<close> and tab.\<close>

definition is_separator :: "char \<Rightarrow> bool" where
  "is_separator x =
     (x = CHR ''_'' \<or> x = CHR ''.'' \<or> x = CHR '','' \<or> x = CHR '';'' \<or> x = CHR '' ''
      \<or> x = CHR ''#'' \<or> x = CHR 0x09)"

definition cleanupString :: "string \<Rightarrow> string" where
  "cleanupString rawString = filter (\<lambda>x. \<not> is_separator x) rawString"

section \<open>The request byte tree (request\_byte\_tree\_node.h)\<close>

text \<open>
  The nodes of a tree live in a store, a list of cells; a pointer to a node is the index
  of its cell, and \<open>new\<close> appends a cell to the store. So a pointer tells in which order
  the nodes were created, not where in memory they are: the memory address of each node
  is a parameter \<open>mem\<close> of the operations whose result depends on it (the iteration of a
  \<open>std::set\<close> of pointers).

  A cell is \<open>None\<close> once its node has been deleted; a pointer to it stays what it was,
  and dangles. To call a member function through a pointer to a deleted node, and to
  delete a node a second time, is undefined behaviour: an operation that does so has
  the result \<open>Undefined\<close>, and so has every operation that depends on it.

  The counters are \<open>uint32_t\<close> in the source and count the byte elements of one script
  key; they are natural numbers here. The children in \<open>subsequentByte\<close>, a \<open>std::map\<close>,
  are a list of pairs with one pair for a key, in the order in which they were added.
\<close>

datatype 'a result = Undefined | Defined 'a

type_synonym ptr = nat

record 'a RequestByteTreeNode =
  subsequentByte :: "(byte \<times> ptr) list"
  subsequentPlaceholder :: "ptr option"
  subsequentWildcard :: "ptr option"
  luaResponse :: "'a option"
  placeholderCount :: nat
  requestLength :: nat
  wildcard :: bool

type_synonym 'a store = "'a RequestByteTreeNode option list"

datatype error = InvalidPattern | DuplicateWildcard

definition node_at :: "'a store \<Rightarrow> ptr \<Rightarrow> 'a RequestByteTreeNode option" where
  "node_at h p = (if p < length h then h ! p else None)"

text \<open>
  The constructor initialises \<open>luaResponse\<close>, \<open>placeholderCount\<close> and \<open>requestLength\<close>,
  and the three members for the children are empty by their own constructors. It leaves
  \<open>wildcard\<close> uninitialised: what the member then reads as is the last argument of
  \<open>newNode\<close>. The operations that make a node take it from their parameter \<open>uninit\<close>,
  which gives this value for each pointer.
\<close>

definition newNode :: "nat \<Rightarrow> nat \<Rightarrow> bool \<Rightarrow> 'a RequestByteTreeNode" where
  "newNode pc rl w =
     \<lparr>subsequentByte = [], subsequentPlaceholder = None, subsequentWildcard = None,
      luaResponse = None, placeholderCount = pc, requestLength = rl, wildcard = w\<rparr>"

text \<open>
  \<open>appendByte\<close>: \<open>emplace\<close> leaves an entry that is already in the map as it is, and the
  node made for it is destroyed again. The child returned is not looked at.
\<close>

definition appendByte ::
  "(ptr \<Rightarrow> bool) \<Rightarrow> 'a store \<Rightarrow> ptr \<Rightarrow> byte \<Rightarrow> (ptr \<times> 'a store) result" where
  "appendByte uninit h this requestByte =
     (case node_at h this of
        None \<Rightarrow> Undefined
      | Some n \<Rightarrow>
          (case map_of (subsequentByte n) requestByte of
             Some nextElement \<Rightarrow> Defined (nextElement, h)
           | None \<Rightarrow>
               Defined
                 (length h,
                  h[this := Some (n\<lparr>subsequentByte :=
                                      subsequentByte n @ [(requestByte, length h)]\<rparr>)]
                  @ [Some (newNode (placeholderCount n) (requestLength n + 1)
                             (uninit (length h)))])))"

text \<open>
  \<open>appendWildcard\<close> throws when the pointer to the wildcard child is not null; it does
  not look at the child. The child that it makes gets \<open>wildcard = true\<close>.
\<close>

definition appendWildcard :: "'a store \<Rightarrow> ptr \<Rightarrow> (error + ptr \<times> 'a store) result" where
  "appendWildcard h this =
     (case node_at h this of
        None \<Rightarrow> Undefined
      | Some n \<Rightarrow>
          (case subsequentWildcard n of
             Some _ \<Rightarrow> Defined (Inl DuplicateWildcard)
           | None \<Rightarrow>
               Defined
                 (Inr (length h,
                       h[this := Some (n\<lparr>subsequentWildcard := Some (length h)\<rparr>)]
                       @ [Some (newNode (placeholderCount n) (requestLength n + 1) True)]))))"

text \<open>
  \<open>appendPlaceholder\<close> makes the placeholder child when there is none, and in both cases
  assigns \<open>placeholderCount + 1\<close> to the child's counter (for a fresh child that is the
  value it was made with): it writes to the child.
\<close>

definition appendPlaceholder ::
  "(ptr \<Rightarrow> bool) \<Rightarrow> 'a store \<Rightarrow> ptr \<Rightarrow> (ptr \<times> 'a store) result" where
  "appendPlaceholder uninit h this =
     (case node_at h this of
        None \<Rightarrow> Undefined
      | Some n \<Rightarrow>
          (case subsequentPlaceholder n of
             None \<Rightarrow>
               Defined
                 (length h,
                  h[this := Some (n\<lparr>subsequentPlaceholder := Some (length h)\<rparr>)]
                  @ [Some (newNode (placeholderCount n + 1) (requestLength n + 1)
                             (uninit (length h)))])
           | Some nextElement \<Rightarrow>
               (case node_at h nextElement of
                  None \<Rightarrow> Undefined
                | Some c \<Rightarrow>
                    Defined
                      (nextElement,
                       h[nextElement := Some (c\<lparr>placeholderCount := placeholderCount n + 1\<rparr>)]))))"

text \<open>
  \<open>setLuaResponse\<close> stores the response and returns \<open>shared_ptr(this)\<close>: a new shared
  pointer made from the plain pointer, with a use count of its own, 1. The model returns
  the pointer that this new owner owns.
\<close>

definition setLuaResponse :: "'a store \<Rightarrow> ptr \<Rightarrow> 'a \<Rightarrow> (ptr \<times> 'a store) result" where
  "setLuaResponse h this r =
     (case node_at h this of
        None \<Rightarrow> Undefined
      | Some n \<Rightarrow> Defined (this, h[this := Some (n\<lparr>luaResponse := Some r\<rparr>)]))"

text \<open>
  When the last owner of a node goes, the node is deleted: its destructor destroys the
  members, the last one declared first, and with them the shared pointers to its
  children. In a tree every child has its parent as its only lasting owner, so the
  children are deleted in turn. \<open>deleteNodes\<close> deletes the nodes of a list, and the
  nodes below them; a node that is deleted already is then deleted a second time. It
  ends since every step takes one node from those that are alive, which \<open>live\<close> counts.
\<close>

definition children :: "'a RequestByteTreeNode \<Rightarrow> ptr list" where
  "children n =
     (case subsequentWildcard n of None \<Rightarrow> [] | Some c \<Rightarrow> [c])
     @ (case subsequentPlaceholder n of None \<Rightarrow> [] | Some c \<Rightarrow> [c])
     @ map snd (subsequentByte n)"

definition live :: "'a store \<Rightarrow> nat" where
  "live h = length (filter (\<lambda>c. c \<noteq> None) h)"

function deleteNodes :: "'a store \<Rightarrow> ptr list \<Rightarrow> 'a store result" where
  "deleteNodes h [] = Defined h"
| "deleteNodes h (p # ps) =
     (case node_at h p of
        None \<Rightarrow> Undefined
      | Some n \<Rightarrow> deleteNodes (h[p := None]) (children n @ ps))"
  by pat_completeness auto
termination
proof (relation "measure (\<lambda>(h, ps). live h)")
  show "wf (measure (\<lambda>(h, ps). live h))" by simp
next
  fix h :: "'a store" and p :: ptr and ps :: "ptr list" and n :: "'a RequestByteTreeNode"
  assume a: "node_at h p = Some n"
  have "\<And>p. p < length h \<Longrightarrow> h ! p \<noteq> None \<Longrightarrow> live (h[p := None]) < live h"
  proof (induction h)
    case Nil
    then show ?case by simp
  next
    case (Cons c h)
    show ?case
    proof (cases p)
      case 0
      with Cons.prems show ?thesis
        by (simp add: live_def le_imp_less_Suc)
    next
      case (Suc q)
      with Cons.prems Cons.IH [of q] show ?thesis by (simp add: live_def)
    qed
  qed
  with a show "((h[p := None], children n @ ps), (h, p # ps)) \<in> measure (\<lambda>(h, ps). live h)"
    by (simp add: node_at_def split: if_splits)
qed

section \<open>Building the tree (ecu\_lua\_script.cpp)\<close>

text \<open>
  \<open>addRequestToTree\<close> walks the normalised key two characters at a time. A pair that
  is \<open>XX\<close> in any case is a placeholder; every other pair goes through
  \<open>literalHexStrToBytes(_).at(0)\<close>, which throws \<open>out_of_range\<close> only when the pair
  yields no byte at all. A last single character must be \<open>*\<close>. What the function
  throws is a plain \<open>exception\<close>; the model names the error after the place that throws.
  The store is returned in both cases: the nodes made before a throw stay in the tree.
\<close>

fun addRequestToTree ::
  "(ptr \<Rightarrow> bool) \<Rightarrow> 'a store \<Rightarrow> ptr \<Rightarrow> string \<Rightarrow> ((error + ptr) \<times> 'a store) result" where
  "addRequestToTree uninit h currentRequestByteTreePosition (c1 # c2 # rest) =
     (if is_REQUEST_PLACEHOLDER [c1, c2] then
        (case appendPlaceholder uninit h currentRequestByteTreePosition of
           Undefined \<Rightarrow> Undefined
         | Defined (nxt, h') \<Rightarrow> addRequestToTree uninit h' nxt rest)
      else
        (case literalHexStrToBytes [c1, c2] of
           [] \<Rightarrow> Defined (Inl InvalidPattern, h)
         | requestByte # _ \<Rightarrow>
             (case appendByte uninit h currentRequestByteTreePosition requestByte of
                Undefined \<Rightarrow> Undefined
              | Defined (nxt, h') \<Rightarrow> addRequestToTree uninit h' nxt rest)))"
| "addRequestToTree uninit h currentRequestByteTreePosition [c] =
     (if c = CHR ''*'' then
        (case appendWildcard h currentRequestByteTreePosition of
           Undefined \<Rightarrow> Undefined
         | Defined (Inl e) \<Rightarrow> Defined (Inl e, h)
         | Defined (Inr (nxt, h')) \<Rightarrow> Defined (Inr nxt, h'))
      else Defined (Inl InvalidPattern, h))"
| "addRequestToTree uninit h currentRequestByteTreePosition [] =
     Defined (Inr currentRequestByteTreePosition, h)"

text \<open>
  \<open>buildRequestByteTree\<close>: every key is normalised and added, and its response bound to
  the leaf. The statement \<open>requestByteLeaf->setLuaResponse(response);\<close> drops the shared
  pointer that \<open>setLuaResponse\<close> returns; this owner was the only one that shares its
  use count, so the leaf is deleted at the end of the statement, while its parent keeps
  the pointer to it.

  The \<open>catch (exception &e)\<close> inside the loop takes every exception of
  \<open>addRequestToTree\<close>, writes \<open>Ignoring invalid request\<close> for the key and goes on with
  the next key. The model returns the store and the keys so ignored, in their order; the
  root of the tree is the first node of the store.
\<close>

fun buildLoop ::
  "(ptr \<Rightarrow> bool) \<Rightarrow> (string \<Rightarrow> 'a) \<Rightarrow> 'a store \<Rightarrow> ptr \<Rightarrow> string list
   \<Rightarrow> ('a store \<times> (string \<times> error) list) result" where
  "buildLoop uninit mappingFunction h requestByteTree [] = Defined (h, [])"
| "buildLoop uninit mappingFunction h requestByteTree (requestStringRaw # requestKeys) =
     (let requestString = cleanupString requestStringRaw;
          response = mappingFunction requestStringRaw
      in case addRequestToTree uninit h requestByteTree requestString of
           Undefined \<Rightarrow> Undefined
         | Defined (Inr requestByteLeaf, h1) \<Rightarrow>
             (case setLuaResponse h1 requestByteLeaf response of
                Undefined \<Rightarrow> Undefined
              | Defined (owner, h2) \<Rightarrow>
                  (case deleteNodes h2 [owner] of
                     Undefined \<Rightarrow> Undefined
                   | Defined h3 \<Rightarrow>
                       buildLoop uninit mappingFunction h3 requestByteTree requestKeys))
         | Defined (Inl e, h1) \<Rightarrow>
             (case buildLoop uninit mappingFunction h1 requestByteTree requestKeys of
                Undefined \<Rightarrow> Undefined
              | Defined (h', ignored) \<Rightarrow> Defined (h', (requestStringRaw, e) # ignored)))"

definition buildRequestByteTree ::
  "(ptr \<Rightarrow> bool) \<Rightarrow> string list \<Rightarrow> (string \<Rightarrow> 'a)
   \<Rightarrow> ('a store \<times> (string \<times> error) list) result" where
  "buildRequestByteTree uninit requestKeys mappingFunction =
     buildLoop uninit mappingFunction [Some (newNode 0 0 (uninit 0))] 0 requestKeys"

section \<open>Matching a request (ecu\_lua\_script.cpp)\<close>

text \<open>
  A \<open>std::set\<close> of node pointers is a list of pointers without duplicates in ascending
  order of their memory addresses \<open>mem\<close>, which is the order in which the set is
  iterated. \<open>set_insert\<close> is \<open>std::set::insert\<close>.
\<close>

definition set_insert :: "(ptr \<Rightarrow> nat) \<Rightarrow> ptr \<Rightarrow> ptr list \<Rightarrow> ptr list" where
  "set_insert mem p ps = (if mem p \<in> set (map mem ps) then ps else insort_key mem p ps)"

text \<open>
  \<open>findAndAddMatchesForNextByte\<close> reads the three kinds of children of the current node
  and inserts the pointers that are not null; it does not look at the children.
\<close>

definition findAndAddMatchesForNextByte ::
  "(ptr \<Rightarrow> nat) \<Rightarrow> 'a store \<Rightarrow> ptr list \<Rightarrow> ptr \<Rightarrow> byte \<Rightarrow> ptr list result" where
  "findAndAddMatchesForNextByte mem h matchingNodes currentByte nextByte =
     (case node_at h currentByte of
        None \<Rightarrow> Undefined
      | Some n \<Rightarrow>
          (let m1 = (case map_of (subsequentByte n) nextByte of
                       Some c \<Rightarrow> set_insert mem c matchingNodes | None \<Rightarrow> matchingNodes);
               m2 = (case subsequentPlaceholder n of
                       Some c \<Rightarrow> set_insert mem c m1 | None \<Rightarrow> m1)
           in Defined (case subsequentWildcard n of
                         Some c \<Rightarrow> set_insert mem c m2 | None \<Rightarrow> m2)))"

definition getThisOrNextWildcardWithResponse :: "'a store \<Rightarrow> ptr \<Rightarrow> ptr result" where
  "getThisOrNextWildcardWithResponse h requestByteNode =
     (case node_at h requestByteNode of
        None \<Rightarrow> Undefined
      | Some n \<Rightarrow>
          Defined (if luaResponse n = None then
                     (case subsequentWildcard n of Some w \<Rightarrow> w | None \<Rightarrow> requestByteNode)
                   else requestByteNode))"

text \<open>
  The loop of \<open>findBestMatchingRequest\<close> over the candidates that are left, with the
  best match so far; \<open>None\<close> is the null pointer.
\<close>

fun findBestLoop :: "'a store \<Rightarrow> ptr option \<Rightarrow> ptr list \<Rightarrow> ptr option result" where
  "findBestLoop h bestMatchingRequest [] = Defined bestMatchingRequest"
| "findBestLoop h bestMatchingRequest (matchingRequestItem # items) =
     (case getThisOrNextWildcardWithResponse h matchingRequestItem of
        Undefined \<Rightarrow> Undefined
      | Defined matchingRequest \<Rightarrow>
          (case node_at h matchingRequest of
             None \<Rightarrow> Undefined
           | Some m \<Rightarrow>
               if luaResponse m = None then findBestLoop h bestMatchingRequest items
               else
                 (case bestMatchingRequest of
                    None \<Rightarrow> findBestLoop h (Some matchingRequest) items
                  | Some best \<Rightarrow>
                      (case node_at h best of
                         None \<Rightarrow> Undefined
                       | Some b \<Rightarrow>
                           if wildcard b \<and> \<not> wildcard m
                           then findBestLoop h (Some matchingRequest) items
                           else if wildcard m \<and> requestLength m > requestLength b
                           then findBestLoop h (Some matchingRequest) items
                           else if placeholderCount m < placeholderCount b
                           then findBestLoop h (Some matchingRequest) items
                           else findBestLoop h (Some best) items))))"

definition findBestMatchingRequest :: "'a store \<Rightarrow> ptr list \<Rightarrow> ptr option result" where
  "findBestMatchingRequest h potentiallyMatchingRequests =
     findBestLoop h None potentiallyMatchingRequests"

text \<open>
  The inner loop of \<open>getValueFromTree\<close> over the candidates that are left, for one byte
  of the payload: a node that reads as a wildcard stays, every other node hands over its
  children.
\<close>

fun matchByte ::
  "(ptr \<Rightarrow> nat) \<Rightarrow> 'a store \<Rightarrow> ptr list \<Rightarrow> byte \<Rightarrow> ptr list \<Rightarrow> ptr list result" where
  "matchByte mem h matchingNodes nextByte [] = Defined matchingNodes"
| "matchByte mem h matchingNodes nextByte (crntRequestByte # reqs) =
     (case node_at h crntRequestByte of
        None \<Rightarrow> Undefined
      | Some n \<Rightarrow>
          if wildcard n
          then matchByte mem h (set_insert mem crntRequestByte matchingNodes) nextByte reqs
          else
            (case findAndAddMatchesForNextByte mem h matchingNodes crntRequestByte nextByte of
               Undefined \<Rightarrow> Undefined
             | Defined matchingNodes' \<Rightarrow> matchByte mem h matchingNodes' nextByte reqs))"

fun matchPayload ::
  "(ptr \<Rightarrow> nat) \<Rightarrow> 'a store \<Rightarrow> ptr list \<Rightarrow> byte list \<Rightarrow> ptr list result" where
  "matchPayload mem h potentiallyMatchingRequests [] = Defined potentiallyMatchingRequests"
| "matchPayload mem h potentiallyMatchingRequests (nextByte # payload) =
     (if potentiallyMatchingRequests = [] then Defined potentiallyMatchingRequests
      else
        (case matchByte mem h [] nextByte potentiallyMatchingRequests of
           Undefined \<Rightarrow> Undefined
         | Defined matchingNodes \<Rightarrow> matchPayload mem h matchingNodes payload))"

definition getValueFromTree ::
  "(ptr \<Rightarrow> nat) \<Rightarrow> 'a store \<Rightarrow> ptr \<Rightarrow> byte list \<Rightarrow> 'a option result" where
  "getValueFromTree mem h requestByteTree payload =
     (case matchPayload mem h [requestByteTree] payload of
        Undefined \<Rightarrow> Undefined
      | Defined potentiallyMatchingRequests \<Rightarrow>
          (case findBestMatchingRequest h potentiallyMatchingRequests of
             Undefined \<Rightarrow> Undefined
           | Defined None \<Rightarrow> Defined None
           | Defined (Some bestMatchingRequest) \<Rightarrow>
               (case node_at h bestMatchingRequest of
                  None \<Rightarrow> Undefined
                | Some b \<Rightarrow> Defined (luaResponse b))))"

text \<open>
  A value of the script's table is a string or a function of the script; a function is
  called with the request as a string of hex bytes and its result is the response. What
  else a function of the script may do (send a message, switch the session) is outside
  the model.
\<close>

datatype Selector = LuaString string | LuaFunction "string \<Rightarrow> string"


section \<open>Parsing a PGN (j1939\_simulator.cpp)\<close>

text \<open>
  \<open>parsePGN\<close>: \<open>strnlen(pgn.c_str(), 6)\<close> is the length of the C string, at most 6; the
  \<open>long\<close> of \<open>strtol\<close> is stored in a \<open>uint32_t\<close>. The loop over the bytes runs from
  the last byte to the first, shifting the number left by 8 bits and or-ing the byte in.
\<close>

definition parsePGN :: "string \<Rightarrow> 32 word" where
  "parsePGN pgn =
     (let pgnNum = (if min (length (c_str pgn)) 6 < 6 then word_of_int (strtol pgn 10) else 0)
      in if pgnNum = 0 \<or> pgnNum > 99999 then
           (let pgnBytes = literalHexStrToBytes pgn
            in if length pgnBytes \<le> 3
               then foldl (\<lambda>n b. push_bit 8 n OR ucast b) 0 (rev pgnBytes)
               else 0)
         else pgnNum)"

section \<open>The UDS receiver (uds\_receiver.cpp)\<close>

text \<open>
  Modelled from the spec: the constants of \<open>service_identifier.h\<close>, which is not among
  the source files, with the values the spec gives for the bytes on the wire.
\<close>

definition ERROR :: byte where
  "ERROR = 0x7F"

definition SERVICE_NOT_SUPPORTED :: byte where
  "SERVICE_NOT_SUPPORTED = 0x11"




definition DIAGNOSTIC_SESSION_CONTROL_RES :: byte where
  "DIAGNOSTIC_SESSION_CONTROL_RES = 0x50"

definition SECURITY_ACCESS_REQ :: byte where
  "SECURITY_ACCESS_REQ = 0x27"

definition SECURITY_ACCESS_RES :: byte where
  "SECURITY_ACCESS_RES = 0x67"

text \<open>
  Modelled from the spec: the session controller and the ISO-TP sender, whose classes are
  not among the source files. The session controller holds the current session and a
  session-timeout timer; the model keeps the session and the list of the calls made to
  the timer. The sender's \<open>sendData\<close> is the list of the messages sent, in their order.
  \<open>securityAccessType\<close> is the receiver's own field \<^verbatim>\<open>securityAccessType_\<close>, the
  subfunction expected next, one byte wide.
\<close>

datatype UdsSession = DEFAULT | PROGRAMMING | EXTENDED

datatype timer_call = TimerStart | TimerReset

record uds_receiver =
  currentUdsSession :: UdsSession
  timerCalls :: "timer_call list"
  sentData :: "byte list list"
  securityAccessType :: byte

definition sendData :: "byte list \<Rightarrow> uds_receiver \<Rightarrow> uds_receiver" where
  "sendData msg st = st\<lparr>sentData := sentData st @ [msg]\<rparr>"

definition setCurrentUdsSession :: "UdsSession \<Rightarrow> uds_receiver \<Rightarrow> uds_receiver" where
  "setCurrentUdsSession ses st = st\<lparr>currentUdsSession := ses\<rparr>"

definition timer_start :: "uds_receiver \<Rightarrow> uds_receiver" where
  "timer_start st = st\<lparr>timerCalls := timerCalls st @ [TimerStart]\<rparr>"


text \<open>
  What the receiver reads of the script: the \<open>Seed\<close> table, and the
  \<open>ReadDataByIdentifier\<close> tables of the ECU and of its \<open>Programming\<close> and \<open>Extended\<close>
  sessions. A value that is missing reads as the empty string.
\<close>

record ecu_script =
  Seed :: "byte \<rightharpoonup> string"
  ReadDataByIdentifier :: "string \<rightharpoonup> Selector"
  ProgrammingReadDataByIdentifier :: "string \<rightharpoonup> Selector"
  ExtendedReadDataByIdentifier :: "string \<rightharpoonup> Selector"

definition getSeed :: "ecu_script \<Rightarrow> byte \<Rightarrow> string" where
  "getSeed script seed_level = (case Seed script seed_level of Some val \<Rightarrow> val | None \<Rightarrow> [])"


text \<open>
  The request is the list of the \<open>num_bytes\<close> bytes received. A handler that reads
  \<open>buffer[i]\<close> outside of them returns \<open>None\<close>.
\<close>

definition buffer_at :: "byte list \<Rightarrow> nat \<Rightarrow> byte option" where
  "buffer_at buffer i = (if i < length buffer then Some (buffer ! i) else None)"


definition diagnosticSessionControl :: "byte list \<Rightarrow> uds_receiver \<Rightarrow> uds_receiver option" where
  "diagnosticSessionControl buffer st =
     (case buffer_at buffer 1 of
        None \<Rightarrow> None
      | Some sessionId \<Rightarrow>
          (let st1 =
                 (if sessionId = 0x01 then setCurrentUdsSession DEFAULT st
                  else if sessionId = 0x02 then timer_start (setCurrentUdsSession PROGRAMMING st)
                  else if sessionId = 0x03 then timer_start (setCurrentUdsSession EXTENDED st)
                  else st)
           in Some (sendData [DIAGNOSTIC_SESSION_CONTROL_RES, sessionId] st1)))"

text \<open>
  \<open>securityAccess\<close> sends the seed as the characters of the script's string, without the
  last one (\<open>seed.cend() - 1\<close>).
\<close>

definition securityAccess ::
  "ecu_script \<Rightarrow> byte list \<Rightarrow> uds_receiver \<Rightarrow> uds_receiver option" where
  "securityAccess script buffer st =
     (case buffer_at buffer 1 of
        None \<Rightarrow> None
      | Some seedId \<Rightarrow>
          (let seed = getSeed script seedId
           in if seed \<noteq> [] then
                Some ((sendData ([SECURITY_ACCESS_REQ, seedId] @ map of_char (butlast seed)) st)
                        \<lparr>securityAccessType := seedId + 0x01\<rparr>)
              else if securityAccessType st = seedId then
                Some ((sendData [SECURITY_ACCESS_RES] st)\<lparr>securityAccessType := 0x00\<rparr>)
              else Some (sendData [ERROR, 0x27, SERVICE_NOT_SUPPORTED] st)))"


section \<open>Reference notions of the statements\<close>

text \<open>The value of a list of bytes read little-endian, and read big-endian.\<close>

fun le_value :: "byte list \<Rightarrow> nat" where
  "le_value [] = 0"
| "le_value (b # bs) = unat b + 256 * le_value bs"

definition be_value :: "byte list \<Rightarrow> nat" where
  "be_value bs = le_value (rev bs)"

text \<open>The number that a string of hexadecimal digits denotes.\<close>

definition hex_value :: "string \<Rightarrow> nat" where
  "hex_value s = foldl (\<lambda>a c. a * 16 + nat (digit_or_zero c)) 0 s"

text \<open>
  The byte of weight \<open>256 ^ t\<close> of a 32-bit value, and a byte written as two upper-case
  hexadecimal digits.
\<close>

definition byte_at :: "32 word \<Rightarrow> nat \<Rightarrow> nat" where
  "byte_at v t = unat v div 256 ^ t mod 256"

definition hex2 :: "nat \<Rightarrow> string" where
  "hex2 b = [HEX_LUT ! (b div 16), HEX_LUT ! (b mod 16)]"

text \<open>Bytes written as pairs of hexadecimal digits, a blank after each pair.\<close>

definition spaced_hex :: "nat list \<Rightarrow> string" where
  "spaced_hex bs = concat (map (\<lambda>b. hex2 b @ '' '') bs)"

text \<open>
  The pattern that \<open>addRequestToTree\<close> reads from a normalised key: a placeholder for a
  pair \<open>XX\<close>, a byte for every other pair, the wildcard for a last single \<open>*\<close>;
  \<open>None\<close> for a key that it rejects for its form.
\<close>

datatype element = Concrete byte | Placeholder | Wildcard

fun pattern_of :: "string \<Rightarrow> element list option" where
  "pattern_of (c1 # c2 # rest) =
     (if is_REQUEST_PLACEHOLDER [c1, c2]
      then map_option ((#) Placeholder) (pattern_of rest)
      else (case literalHexStrToBytes [c1, c2] of
              [] \<Rightarrow> None
            | b # _ \<Rightarrow> map_option ((#) (Concrete b)) (pattern_of rest)))"
| "pattern_of [c] = (if c = CHR ''*'' then Some [Wildcard] else None)"
| "pattern_of [] = Some []"

text \<open>
  The child of a node along an element, and the node that a pattern leads to from a
  node of the store, through nodes that have not been deleted; the last node need not
  be one of them.
\<close>

definition edge :: "'a RequestByteTreeNode \<Rightarrow> element \<Rightarrow> ptr option" where
  "edge n e =
     (case e of
        Concrete b \<Rightarrow> map_of (subsequentByte n) b
      | Placeholder \<Rightarrow> subsequentPlaceholder n
      | Wildcard \<Rightarrow> subsequentWildcard n)"

fun walk :: "'a store \<Rightarrow> ptr \<Rightarrow> element list \<Rightarrow> ptr option" where
  "walk h p [] = Some p"
| "walk h p (e # es) =
     (case node_at h p of
        None \<Rightarrow> None
      | Some n \<Rightarrow> (case edge n e of None \<Rightarrow> None | Some c \<Rightarrow> walk h c es))"

text \<open>
  A pointer is deleted in a store when its node has been deleted. A store extends
  another one when it keeps the nodes of that one with their children, and its deleted
  nodes deleted.
\<close>

definition deleted :: "'a store \<Rightarrow> ptr \<Rightarrow> bool" where
  "deleted h p = (p < length h \<and> h ! p = None)"

definition extends :: "'a store \<Rightarrow> 'a store \<Rightarrow> bool" where
  "extends h h' =
     (length h \<le> length h'
      \<and> (\<forall>p. deleted h p \<longrightarrow> deleted h' p)
      \<and> (\<forall>p n. node_at h p = Some n \<longrightarrow>
             (\<exists>n'. node_at h' p = Some n'
                   \<and> (\<forall>e c. edge n e = Some c \<longrightarrow> edge n' e = Some c))))"

text \<open>
  What holds of a store between two keys of the builder, a tidy store: no node of it has
  a response, every pointer in it points into it, a placeholder child counts one
  placeholder more than its parent, and the wildcard child of a node is deleted.
\<close>

definition unbound :: "'a store \<Rightarrow> bool" where
  "unbound h = (\<forall>p n. node_at h p = Some n \<longrightarrow> luaResponse n = None)"

definition closed :: "'a store \<Rightarrow> bool" where
  "closed h = (\<forall>p n e c. node_at h p = Some n \<and> edge n e = Some c \<longrightarrow> c < length h)"

definition counted :: "'a store \<Rightarrow> bool" where
  "counted h =
     (\<forall>p n c m. node_at h p = Some n \<and> subsequentPlaceholder n = Some c
                 \<and> node_at h c = Some m
                 \<longrightarrow> placeholderCount m = placeholderCount n + 1)"

definition wildcards_deleted :: "'a store \<Rightarrow> bool" where
  "wildcards_deleted h =
     (\<forall>p n w. node_at h p = Some n \<and> subsequentWildcard n = Some w \<longrightarrow> deleted h w)"

definition tidy :: "'a store \<Rightarrow> bool" where
  "tidy h = (unbound h \<and> closed h \<and> counted h \<and> wildcards_deleted h)"

section \<open>The hash helper\<close>

lemma createHash_clears: "snd (createHash acc) = ''''"
  by (simp add: createHash_def Let_def)

lemma printf_X_FFFF: "printf_X 65535 = ''FFFF''"
  by (simp add: printf_X.simps HEX_LUT_def)

lemma createHash_empty: "createHash '''' = (''FFFF'', '''')"
  by (simp add: createHash_def literalHexStrToBytes_def crc_ccitt_ffff_def printf_X_FFFF)

text \<open>
  C7, as stated, fails: on the empty accumulator the CRC is its seed \<open>0xFFFF\<close>, and the
  answer is \<open>FFFF\<close>, not \<open>0000\<close>.
\<close>

theorem C7_createHash_empty_not_0000:
  "fst (createHash '''') = ''FFFF'' \<and> fst (createHash '''') \<noteq> ''0000''"
  by (simp add: createHash_empty)

text \<open>
  C7, amended: \<open>createHash\<close> on the empty accumulator returns \<open>FFFF\<close>; after every call,
  whatever the accumulator held, the accumulator is empty, so that a second call right
  after it returns what a call on the empty accumulator returns.
\<close>

theorem C7_createHash_resets:
  "fst (createHash '''') = ''FFFF''
   \<and> snd (createHash acc) = ''''
   \<and> createHash (snd (createHash acc)) = createHash ''''"
  by (simp add: createHash_empty createHash_clears)

section \<open>Which match wins\<close>

text \<open>
  The examples below build a tree with \<open>buildRequestByteTree\<close>, the uninitialised
  member \<open>wildcard\<close> of every node reading as \<open>false\<close>, and match a request against it.
  The builder deletes the leaf of a key right after it has bound the response of the key
  to it: the lookup of a request that the key matches comes to a pointer that dangles.
\<close>

text \<open>
  C1 fails on the code. The tree is built from the one key \<open>22 F1 90\<close> with the response
  \<open>62 F1 90 01\<close>. The store that the builder leaves has the root, the node of \<open>22\<close>
  and the node of \<open>22 F1\<close>, whose child for \<open>90\<close> is the pointer 3 to the leaf; the
  leaf itself is deleted, and the response with it. The lookup of the request
  \<open>22 F1 90\<close>, which equals the key, follows the pointers to the leaf and calls
  \<open>getLuaResponse\<close> on it: it is undefined, whatever the addresses of the nodes are,
  and does not return the response of the key.
\<close>

theorem C1_leaf_of_literal_key_is_deleted:
  "buildRequestByteTree (\<lambda>p. False) [''22 F1 90''] (\<lambda>k. ''62 F1 90 01'') =
     Defined
       ([Some ((newNode 0 0 False)\<lparr>subsequentByte := [(0x22, 1)]\<rparr>),
         Some ((newNode 0 1 False)\<lparr>subsequentByte := [(0xF1, 2)]\<rparr>),
         Some ((newNode 0 2 False)\<lparr>subsequentByte := [(0x90, 3)]\<rparr>),
         None], [])
   \<and> getValueFromTree mem
         ([Some ((newNode 0 0 False)\<lparr>subsequentByte := [(0x22, 1)]\<rparr>),
           Some ((newNode 0 1 False)\<lparr>subsequentByte := [(0xF1, 2)]\<rparr>),
           Some ((newNode 0 2 False)\<lparr>subsequentByte := [(0x90, 3)]\<rparr>),
           None] :: string store) 0 [0x22, 0xF1, 0x90] = Undefined"
proof
  show "buildRequestByteTree (\<lambda>p. False) [''22 F1 90''] (\<lambda>k. ''62 F1 90 01'') =
     Defined
       ([Some ((newNode 0 0 False)\<lparr>subsequentByte := [(0x22, 1)]\<rparr>),
         Some ((newNode 0 1 False)\<lparr>subsequentByte := [(0xF1, 2)]\<rparr>),
         Some ((newNode 0 2 False)\<lparr>subsequentByte := [(0x90, 3)]\<rparr>),
         None], [])"
    by code_simp
  show "getValueFromTree mem
         ([Some ((newNode 0 0 False)\<lparr>subsequentByte := [(0x22, 1)]\<rparr>),
           Some ((newNode 0 1 False)\<lparr>subsequentByte := [(0xF1, 2)]\<rparr>),
           Some ((newNode 0 2 False)\<lparr>subsequentByte := [(0x90, 3)]\<rparr>),
           None] :: string store) 0 [0x22, 0xF1, 0x90] = Undefined"
    by (simp add: getValueFromTree_def findBestMatchingRequest_def
        findAndAddMatchesForNextByte_def getThisOrNextWildcardWithResponse_def set_insert_def
        node_at_def newNode_def Let_def)
qed

text \<open>
  C2 fails on the code. The tree is built from the keys \<open>22 F1 *\<close> and \<open>22 F1 90\<close>. Both
  match the request \<open>22 F1 90\<close>, and both leaves are deleted: the node of \<open>22 F1\<close> has
  the pointer 3 to its wildcard child and the pointer 4 to its child for \<open>90\<close>, and
  the cells 3 and 4 are empty. The lookup of \<open>22 F1 90\<close> has these two pointers as its
  candidates and is undefined, whatever the addresses of the nodes are: it does not
  return the response of \<open>22 F1 90\<close>, the pattern without wildcard.
\<close>

theorem C2_leaves_of_both_keys_are_deleted:
  "buildRequestByteTree (\<lambda>p. False) [''22 F1 *'', ''22 F1 90'']
       (\<lambda>k. if k = ''22 F1 *'' then ''C'' else ''D'') =
     Defined
       ([Some ((newNode 0 0 False)\<lparr>subsequentByte := [(0x22, 1)]\<rparr>),
         Some ((newNode 0 1 False)\<lparr>subsequentByte := [(0xF1, 2)]\<rparr>),
         Some ((newNode 0 2 False)\<lparr>subsequentByte := [(0x90, 4)],
                                     subsequentWildcard := Some 3\<rparr>),
         None,
         None], [])
   \<and> getValueFromTree mem
         ([Some ((newNode 0 0 False)\<lparr>subsequentByte := [(0x22, 1)]\<rparr>),
           Some ((newNode 0 1 False)\<lparr>subsequentByte := [(0xF1, 2)]\<rparr>),
           Some ((newNode 0 2 False)\<lparr>subsequentByte := [(0x90, 4)],
                                       subsequentWildcard := Some 3\<rparr>),
           None,
           None] :: string store) 0 [0x22, 0xF1, 0x90] = Undefined"
proof
  show "buildRequestByteTree (\<lambda>p. False) [''22 F1 *'', ''22 F1 90'']
       (\<lambda>k. if k = ''22 F1 *'' then ''C'' else ''D'') =
     Defined
       ([Some ((newNode 0 0 False)\<lparr>subsequentByte := [(0x22, 1)]\<rparr>),
         Some ((newNode 0 1 False)\<lparr>subsequentByte := [(0xF1, 2)]\<rparr>),
         Some ((newNode 0 2 False)\<lparr>subsequentByte := [(0x90, 4)],
                                     subsequentWildcard := Some 3\<rparr>),
         None,
         None], [])"
    by code_simp
  show "getValueFromTree mem
         ([Some ((newNode 0 0 False)\<lparr>subsequentByte := [(0x22, 1)]\<rparr>),
           Some ((newNode 0 1 False)\<lparr>subsequentByte := [(0xF1, 2)]\<rparr>),
           Some ((newNode 0 2 False)\<lparr>subsequentByte := [(0x90, 4)],
                                       subsequentWildcard := Some 3\<rparr>),
           None,
           None] :: string store) 0 [0x22, 0xF1, 0x90] = Undefined"
    by (simp add: getValueFromTree_def findBestMatchingRequest_def
        findAndAddMatchesForNextByte_def getThisOrNextWildcardWithResponse_def set_insert_def
        node_at_def newNode_def Let_def)
qed

text \<open>
  C3 fails on the code. The tree is built from the keys \<open>22 XX 90\<close> and \<open>22 F1 90\<close>,
  two patterns without wildcard that match the request \<open>22 F1 90\<close>, with one placeholder
  and with none. Both leaves are deleted, the cells 3 and 5. The lookup of \<open>22 F1 90\<close>
  has the pointers to them as its candidates and is undefined, whatever the addresses of
  the nodes are: it does not return the response of \<open>22 F1 90\<close>, the pattern with the
  fewest placeholders.
\<close>

theorem C3_leaves_of_placeholder_keys_are_deleted:
  "buildRequestByteTree (\<lambda>p. False) [''22 XX 90'', ''22 F1 90'']
       (\<lambda>k. if k = ''22 XX 90'' then ''A'' else ''B'') =
     Defined
       ([Some ((newNode 0 0 False)\<lparr>subsequentByte := [(0x22, 1)]\<rparr>),
         Some ((newNode 0 1 False)\<lparr>subsequentByte := [(0xF1, 4)],
                                     subsequentPlaceholder := Some 2\<rparr>),
         Some ((newNode 1 2 False)\<lparr>subsequentByte := [(0x90, 3)]\<rparr>),
         None,
         Some ((newNode 0 2 False)\<lparr>subsequentByte := [(0x90, 5)]\<rparr>),
         None], [])
   \<and> getValueFromTree mem
         ([Some ((newNode 0 0 False)\<lparr>subsequentByte := [(0x22, 1)]\<rparr>),
           Some ((newNode 0 1 False)\<lparr>subsequentByte := [(0xF1, 4)],
                                       subsequentPlaceholder := Some 2\<rparr>),
           Some ((newNode 1 2 False)\<lparr>subsequentByte := [(0x90, 3)]\<rparr>),
           None,
           Some ((newNode 0 2 False)\<lparr>subsequentByte := [(0x90, 5)]\<rparr>),
           None] :: string store) 0 [0x22, 0xF1, 0x90] = Undefined"
proof
  show "buildRequestByteTree (\<lambda>p. False) [''22 XX 90'', ''22 F1 90'']
       (\<lambda>k. if k = ''22 XX 90'' then ''A'' else ''B'') =
     Defined
       ([Some ((newNode 0 0 False)\<lparr>subsequentByte := [(0x22, 1)]\<rparr>),
         Some ((newNode 0 1 False)\<lparr>subsequentByte := [(0xF1, 4)],
                                     subsequentPlaceholder := Some 2\<rparr>),
         Some ((newNode 1 2 False)\<lparr>subsequentByte := [(0x90, 3)]\<rparr>),
         None,
         Some ((newNode 0 2 False)\<lparr>subsequentByte := [(0x90, 5)]\<rparr>),
         None], [])"
    by code_simp
  show "getValueFromTree mem
         ([Some ((newNode 0 0 False)\<lparr>subsequentByte := [(0x22, 1)]\<rparr>),
           Some ((newNode 0 1 False)\<lparr>subsequentByte := [(0xF1, 4)],
                                       subsequentPlaceholder := Some 2\<rparr>),
           Some ((newNode 1 2 False)\<lparr>subsequentByte := [(0x90, 3)]\<rparr>),
           None,
           Some ((newNode 0 2 False)\<lparr>subsequentByte := [(0x90, 5)]\<rparr>),
           None] :: string store) 0 [0x22, 0xF1, 0x90] = Undefined"
    by (simp add: getValueFromTree_def findBestMatchingRequest_def
        findAndAddMatchesForNextByte_def getThisOrNextWildcardWithResponse_def set_insert_def
        node_at_def newNode_def Let_def)
qed

text \<open>
  When the uninitialised member \<open>wildcard\<close> of the nodes reads as \<open>true\<close>, the root counts
  as a wildcard node and stays the only candidate: the lookup comes to no deleted node
  and returns nothing.
\<close>

lemma lookup_with_flags_set:
  "buildRequestByteTree (\<lambda>p. True) [''22 F1 90''] (\<lambda>k. ''62 F1 90 01'') =
     Defined
       ([Some ((newNode 0 0 True)\<lparr>subsequentByte := [(0x22, 1)]\<rparr>),
         Some ((newNode 0 1 True)\<lparr>subsequentByte := [(0xF1, 2)]\<rparr>),
         Some ((newNode 0 2 True)\<lparr>subsequentByte := [(0x90, 3)]\<rparr>),
         None], [])"
  "getValueFromTree (\<lambda>p. p)
     ([Some ((newNode 0 0 True)\<lparr>subsequentByte := [(0x22, 1)]\<rparr>),
       Some ((newNode 0 1 True)\<lparr>subsequentByte := [(0xF1, 2)]\<rparr>),
       Some ((newNode 0 2 True)\<lparr>subsequentByte := [(0x90, 3)]\<rparr>),
       None] :: string store) 0 [0x22, 0xF1, 0x90] = Defined None"
  by code_simp+

text \<open>
  The comparison of \<open>findBestMatchingRequest\<close> is reached with candidates that have a
  response only on a store in which the leaves are alive and hold their responses; the
  builder leaves no such store. Written down by hand, such stores show that the
  comparison would not keep to the order of its comment. For the keys \<open>22 F1\<close> (\<open>A\<close>) and
  \<open>22 XX *\<close> (\<open>B\<close>) and the request \<open>22 F1\<close> it goes from the leaf of \<open>22 F1\<close> to the
  wildcard child of \<open>22 XX\<close>, which is longer. For the keys \<open>22 XX\<close> (\<open>A\<close>) and \<open>22 *\<close>
  (\<open>B\<close>) and the same request it goes from the leaf of \<open>22 XX\<close> to the wildcard node,
  which has fewer placeholders. In both stores the nodes lie at ascending addresses.
\<close>

lemma comparison_with_leaves_alive:
  "getValueFromTree (\<lambda>p. p)
     [Some ((newNode 0 0 False)\<lparr>subsequentByte := [(0x22, 1)]\<rparr>),
      Some ((newNode 0 1 False)\<lparr>subsequentByte := [(0xF1, 2)],
                                  subsequentPlaceholder := Some 3\<rparr>),
      Some ((newNode 0 2 False)\<lparr>luaResponse := Some ''A''\<rparr>),
      Some ((newNode 1 2 False)\<lparr>subsequentWildcard := Some 4\<rparr>),
      Some ((newNode 1 3 True)\<lparr>luaResponse := Some ''B''\<rparr>)] 0 [0x22, 0xF1]
   = Defined (Some ''B'')"
  "getValueFromTree (\<lambda>p. p)
     [Some ((newNode 0 0 False)\<lparr>subsequentByte := [(0x22, 1)]\<rparr>),
      Some ((newNode 0 1 False)\<lparr>subsequentPlaceholder := Some 2,
                                  subsequentWildcard := Some 3\<rparr>),
      Some ((newNode 1 2 False)\<lparr>luaResponse := Some ''A''\<rparr>),
      Some ((newNode 0 2 True)\<lparr>luaResponse := Some ''B''\<rparr>)] 0 [0x22, 0xF1]
   = Defined (Some ''B'')"
  by code_simp+

section \<open>Keys that are not patterns\<close>

text \<open>
  C5 fails on the code. The pair \<open>ZZ\<close> of the key \<open>22 ZZ\<close> is neither two hexadecimal
  digits nor \<open>XX\<close> nor the last \<open>*\<close>. \<open>strtol\<close> reads it as 0 and reports nothing,
  \<open>literalHexStrToBytes\<close> returns one byte, and \<open>.at(0)\<close> does not throw:
  \<open>addRequestToTree\<close> returns a leaf, the node 2 that it has made as the child for the
  byte \<open>00\<close> of the node of \<open>22\<close>, and the builder puts no key on the list of the ignored
  keys. The key is added as the pattern \<open>22 00\<close>.
\<close>

theorem C5_non_hex_pair_is_added_as_zero:
  "literalHexStrToBytes ''ZZ'' = [0x00]
   \<and> addRequestToTree (\<lambda>p. False) ([Some (newNode 0 0 False)] :: string store) 0
         (cleanupString ''22 ZZ'') =
       Defined
         (Inr 2,
          [Some ((newNode 0 0 False)\<lparr>subsequentByte := [(0x22, 1)]\<rparr>),
           Some ((newNode 0 1 False)\<lparr>subsequentByte := [(0x00, 2)]\<rparr>),
           Some (newNode 0 2 False)])
   \<and> buildRequestByteTree (\<lambda>p. False) [''22 ZZ''] (\<lambda>k. ''A'') =
       Defined
         ([Some ((newNode 0 0 False)\<lparr>subsequentByte := [(0x22, 1)]\<rparr>),
           Some ((newNode 0 1 False)\<lparr>subsequentByte := [(0x00, 2)]\<rparr>),
           None], [])"
  by code_simp

text \<open>
  A key with an odd number of characters that does not end in \<open>*\<close> does fail, and is
  ignored while the key after it is added.
\<close>

lemma odd_key_is_ignored:
  "buildRequestByteTree (\<lambda>p. False) [''22 F'', ''11 01''] (\<lambda>k. k) =
     Defined
       ([Some ((newNode 0 0 False)\<lparr>subsequentByte := [(0x22, 1), (0x11, 2)]\<rparr>),
         Some (newNode 0 1 False),
         Some ((newNode 0 1 False)\<lparr>subsequentByte := [(0x01, 3)]\<rparr>),
         None], [(''22 F'', InvalidPattern)])"
  by code_simp

text \<open>
  C6, as stated, fails. The keys \<open>22 *\<close> and \<open>22*\<close> are the same pattern. Adding the
  second throws in \<open>appendWildcard\<close>, and the \<open>catch\<close> of \<open>buildRequestByteTree\<close> takes
  this exception as it takes every other: the key is put on the list of the ignored
  keys, and the key \<open>11 01\<close> after it is added, as the nodes 3 and 4. The construction of
  the tree completes.
\<close>

theorem C6_duplicate_wildcard_is_skipped:
  "buildRequestByteTree (\<lambda>p. False) [''22 *'', ''22*'', ''11 01''] (\<lambda>k. k) =
     Defined
       ([Some ((newNode 0 0 False)\<lparr>subsequentByte := [(0x22, 1), (0x11, 3)]\<rparr>),
         Some ((newNode 0 1 False)\<lparr>subsequentWildcard := Some 2\<rparr>),
         None,
         Some ((newNode 0 1 False)\<lparr>subsequentByte := [(0x01, 4)]\<rparr>),
         None], [(''22*'', DuplicateWildcard)])"
  by code_simp

text \<open>
  Where the construction is not defined: a key whose pattern is the beginning of the
  pattern of a key before it, or goes on from the pattern of a key before it, and a key
  with the pattern of a key before it that does not end in the wildcard.
\<close>

lemma construction_undefined:
  "buildRequestByteTree (\<lambda>p. False) [''22'', ''22 *''] (\<lambda>k. k) = Undefined"
  "buildRequestByteTree (\<lambda>p. False) [''22 *'', ''22''] (\<lambda>k. k) = Undefined"
  "buildRequestByteTree (\<lambda>p. False) [''22 F1'', ''22F1''] (\<lambda>k. k) = Undefined"
  by code_simp+

section \<open>The UDS receiver's built-in services\<close>





text \<open>
  What the handler does when it is called: with a seed in the script it sends \<open>27\<close>, the
  subfunction and the characters of the seed but the last, and expects the next
  subfunction; without a seed it sends \<open>67\<close> for the subfunction it expects and the
  negative response for every other.
\<close>

lemma securityAccess_cases:
  "securityAccess script (sid # sub # rest) st =
     (if getSeed script sub \<noteq> []
      then Some (st\<lparr>sentData := sentData st @ [[0x27, sub] @ map of_char (butlast (getSeed script sub))],
                    securityAccessType := sub + 1\<rparr>)
      else if securityAccessType st = sub
      then Some (st\<lparr>sentData := sentData st @ [[0x67]], securityAccessType := 0\<rparr>)
      else Some (st\<lparr>sentData := sentData st @ [[0x7F, 0x27, 0x11]]\<rparr>))"
  by (simp add: securityAccess_def buffer_at_def sendData_def Let_def SECURITY_ACCESS_REQ_def
      SECURITY_ACCESS_RES_def ERROR_def SERVICE_NOT_SUPPORTED_def)



text \<open>The valid sessions: the session is set, and the timer started for 2 and 3.\<close>

lemma diagnosticSessionControl_valid:
  "diagnosticSessionControl [0x10, 0x01] st =
     Some (st\<lparr>currentUdsSession := DEFAULT, sentData := sentData st @ [[0x50, 0x01]]\<rparr>)"
  "diagnosticSessionControl [0x10, 0x02] st =
     Some (st\<lparr>currentUdsSession := PROGRAMMING, timerCalls := timerCalls st @ [TimerStart],
               sentData := sentData st @ [[0x50, 0x02]]\<rparr>)"
  "diagnosticSessionControl [0x10, 0x03] st =
     Some (st\<lparr>currentUdsSession := EXTENDED, timerCalls := timerCalls st @ [TimerStart],
               sentData := sentData st @ [[0x50, 0x03]]\<rparr>)"
  by (simp_all add: diagnosticSessionControl_def buffer_at_def sendData_def
      setCurrentUdsSession_def timer_start_def DIAGNOSTIC_SESSION_CONTROL_RES_def)

section \<open>Parsing a PGN\<close>

text \<open>
  A C string of fewer than six characters holds at most five digits, so \<open>strtol\<close> in base
  10 stays within five digits and the conversion to \<open>uint32_t\<close> loses nothing of a
  positive value.
\<close>


lemma digit_or_zero_bound:
  "is_digit 10 c \<Longrightarrow> 0 \<le> digit_or_zero c \<and> digit_or_zero c \<le> 9"
  by (auto simp: is_digit_def digit_or_zero_def split: option.splits)

lemma foldl_digits_bound:
  assumes "\<forall>c \<in> set ds. is_digit 10 c" and "0 \<le> acc"
  shows "0 \<le> foldl (\<lambda>a c. a * 10 + digit_or_zero c) acc ds
         \<and> foldl (\<lambda>a c. a * 10 + digit_or_zero c) acc ds < (acc + 1) * 10 ^ length ds"
  using assms
proof (induction ds arbitrary: acc)
  case Nil
  then show ?case by simp
next
  case (Cons d ds)
  from Cons.prems have d: "0 \<le> digit_or_zero d" "digit_or_zero d \<le> 9"
    using digit_or_zero_bound [of d] by auto
  let ?a = "acc * 10 + digit_or_zero d"
  have a0: "0 \<le> ?a" using d Cons.prems by simp
  from Cons.IH [of ?a] Cons.prems a0
  have IH: "0 \<le> foldl (\<lambda>a c. a * 10 + digit_or_zero c) ?a ds"
    "foldl (\<lambda>a c. a * 10 + digit_or_zero c) ?a ds < (?a + 1) * 10 ^ length ds"
    by auto
  have "(?a + 1) * 10 ^ length ds \<le> ((acc + 1) * 10) * 10 ^ length ds"
    using d by (intro mult_right_mono) auto
  with IH(2) have "foldl (\<lambda>a c. a * 10 + digit_or_zero c) ?a ds
      < ((acc + 1) * 10) * 10 ^ length ds"
    by (rule less_le_trans)
  moreover have "((acc + 1) * 10) * 10 ^ length ds = (acc + 1) * 10 ^ length (d # ds)"
    by simp
  ultimately have "foldl (\<lambda>a c. a * 10 + digit_or_zero c) ?a ds
      < (acc + 1) * 10 ^ length (d # ds)"
    by (simp only:)
  with IH(1) show ?case by (simp only: foldl_Cons simp_thms)
qed

lemma strtol10_bounds:
  assumes "length (c_str s) < 6"
  shows "- 100000 < strtol s 10 \<and> strtol s 10 < 100000"
proof -
  define s0 where "s0 = dropWhile isspace (c_str s)"
  define s1 where "s1 = (case s0 of [] \<Rightarrow> [] | c # r \<Rightarrow> if c = CHR ''-'' \<or> c = CHR ''+'' then r else s0)"
  define ds where "ds = takeWhile (is_digit 10) s1"
  define v where "v = foldl (\<lambda>a c. a * 10 + digit_or_zero c) 0 ds"
  have "length s0 \<le> length (c_str s)"
    unfolding s0_def by (rule length_dropWhile_le)
  moreover have "length s1 \<le> length s0"
    unfolding s1_def by (auto split: list.splits)
  moreover have "length ds \<le> length s1"
    unfolding ds_def by (rule length_takeWhile_le)
  ultimately have len: "length ds \<le> 5" using assms by simp
  have "\<forall>c \<in> set ds. is_digit 10 c"
    unfolding ds_def by (auto dest: set_takeWhileD)
  from foldl_digits_bound [OF this, of 0]
  have v: "0 \<le> v" "v < 10 ^ length ds" by (simp_all add: v_def)
  have "(10::int) ^ length ds \<le> 10 ^ 5" using len by (intro power_increasing) auto
  with v have vb: "v < 100000" by simp
  have "strtol s 10 = v \<or> strtol s 10 = - v"
    using v vb
    by (simp add: strtol_def Let_def s0_def [symmetric] s1_def [symmetric] ds_def [symmetric]
        v_def [symmetric] LONG_MAX_def)
  with v vb show ?thesis by auto
qed


lemma shift_or_byte:
  fixes n :: "32 word" and b :: byte
  assumes "unat n < 2 ^ 24"
  shows "unat (push_bit 8 n OR ucast b) = 256 * unat n + unat b"
proof -
  have disj: "push_bit 8 n AND (ucast b :: 32 word) = 0"
    by (rule bit_word_eqI) (auto simp: bit_simps dest: bit_imp_le_length)
  have "push_bit 8 n OR (ucast b :: 32 word) = push_bit 8 n + ucast b"
    using disj by (simp add: disjunctive_add_eq_or)
  moreover have "unat (push_bit 8 n + (ucast b :: 32 word)) = 256 * unat n + unat b"
  proof -
    have b: "unat b < 256" using unsigned_less [of b, where ?'a = nat] by simp
    have "unat (ucast b :: 32 word) = unat b"
      using b by (simp add: unsigned_ucast_eq take_bit_nat_eq_self)
    moreover have "unat (push_bit 8 n :: 32 word) = 256 * unat n"
      using assms by (simp add: push_bit_eq_mult unat_word_ariths)
    ultimately show ?thesis
      using assms b by (simp add: unat_word_ariths)
  qed
  ultimately show ?thesis by simp
qed

lemma le_value_bound: "le_value bs < 256 ^ length bs"
proof (induction bs)
  case Nil
  show ?case by simp
next
  case (Cons b bs)
  have "unat b < 256" using unsigned_less [of b, where ?'a = nat] by simp
  with Cons show ?case by simp
qed

lemma foldl_shift_or_le_value:
  "length bs \<le> 3 \<Longrightarrow>
   unat (foldl (\<lambda>n b. push_bit 8 n OR ucast b) (0 :: 32 word) (rev bs)) = le_value bs"
proof (induction bs)
  case Nil
  show ?case by simp
next
  case (Cons b bs)
  then have IH: "unat (foldl (\<lambda>n b. push_bit 8 n OR ucast b) (0 :: 32 word) (rev bs)) = le_value bs"
    by simp
  have "le_value bs < 256 ^ length bs" by (rule le_value_bound)
  also have "\<dots> \<le> (256 :: nat) ^ 2" using Cons.prems by (intro power_increasing) auto
  finally have "le_value bs < 2 ^ 24" by simp
  then show ?case using IH by (simp add: shift_or_byte)
qed

lemma unat_word_of_int_32:
  "0 \<le> v \<Longrightarrow> v < 100000 \<Longrightarrow> unat (word_of_int v :: 32 word) = nat v"
  by (simp add: unat_eq_nat_uint uint_word_of_int)

lemma unat_word_of_int_32_neg:
  "- 100000 < v \<Longrightarrow> v < 0 \<Longrightarrow> unat (word_of_int v :: 32 word) = nat (v + 2 ^ 32)"
proof -
  assume a: "- 100000 < v" "v < 0"
  have "(v + 2 ^ 32) mod 2 ^ 32 = v + 2 ^ 32"
    using a by (intro mod_pos_pos_trivial) auto
  then have "v mod 2 ^ 32 = v + 2 ^ 32"
    by (simp only: mod_add_self2)
  then show ?thesis by (simp add: unat_eq_nat_uint uint_word_of_int)
qed

lemma parsePGN_decimal_test:
  assumes "- 100000 < v" "v < 100000"
  shows "((word_of_int v :: 32 word) = 0 \<or> (word_of_int v :: 32 word) > 99999) = (v \<le> 0)"
proof (cases "0 \<le> v")
  case True
  with assms have u: "unat (word_of_int v :: 32 word) = nat v"
    by (simp add: unat_word_of_int_32)
  have "((word_of_int v :: 32 word) = 0) = (v = 0)"
    using u True by (metis nat_0_iff unat_eq_zero  order_antisym)
  moreover have "((word_of_int v :: 32 word) > 99999) = False"
    using u assms True by (simp add: word_less_nat_alt)
  ultimately show ?thesis using True by auto
next
  case False
  with assms have u: "unat (word_of_int v :: 32 word) = nat (v + 2 ^ 32)"
    by (simp add: unat_word_of_int_32_neg)
  have "(word_of_int v :: 32 word) > 99999"
    using u assms False by (simp add: word_less_nat_alt)
  then show ?thesis using False by simp
qed


text \<open>
  C9, as stated, fails. The string \<open>12 34 5\<close> has five characters that are no
  separators, and \<open>strtol\<close> reads the decimal number 12 from it (12345 from the string
  without its separators), but the string has seven characters in all: \<open>parsePGN\<close> does
  not try the decimal number and returns the bytes \<open>12 34 05\<close> read little-endian.
\<close>

theorem C9_separators_count_for_the_length:
  "length (cleanupString ''12 34 5'') = 5
   \<and> strtol ''12 34 5'' 10 = 12
   \<and> strtol (cleanupString ''12 34 5'') 10 = 12345
   \<and> literalHexStrToBytes ''12 34 5'' = [0x12, 0x34, 0x05]
   \<and> parsePGN ''12 34 5'' = 341010"
  by code_simp

text \<open>
  C9, amended: \<open>parsePGN s\<close> returns the decimal number that \<open>strtol\<close> reads from the
  C string of \<open>s\<close>, the characters of \<open>s\<close> up to its first NUL, when this C string,
  separators included, has fewer than six characters and the number is positive (it is
  less than 100000 then); for every other \<open>s\<close> it returns the bytes that
  \<open>literalHexStrToBytes\<close> reads from the whole string \<open>s\<close>, read little-endian, when
  they are at most three, and 0 when they are more.
\<close>

theorem C9_parsePGN_cases:
  "unat (parsePGN s) =
     (if length (c_str s) < 6 \<and> 0 < strtol s 10 \<and> strtol s 10 < 100000
      then nat (strtol s 10)
      else if length (literalHexStrToBytes s) \<le> 3
      then le_value (literalHexStrToBytes s)
      else 0)"
proof (cases "length (c_str s) < 6")
  case True
  then have b: "- 100000 < strtol s 10" "strtol s 10 < 100000"
    using strtol10_bounds by auto
  show ?thesis
  proof (cases "0 < strtol s 10")
    case pos: True
    then show ?thesis
      using True b parsePGN_decimal_test [OF b]
      by (simp add: parsePGN_def unat_word_of_int_32)
  next
    case nonpos: False
    then show ?thesis
      using True b parsePGN_decimal_test [OF b]
      by (simp add: parsePGN_def foldl_shift_or_le_value)
  qed
next
  case False
  then show ?thesis
    by (simp add: parsePGN_def foldl_shift_or_le_value)
qed

section \<open>The byte response helper\<close>

text \<open>The examples of the doc comment of \<open>toByteResponse\<close>, and a length of 0.\<close>

lemma toByteResponse_examples:
  "toByteResponse 13248 2 = Some ''33 C0''"
  "toByteResponse 13248 3 = Some ''00 33 C0''"
  "toByteResponse 13248 1 = Some ''C0''"
  "toByteResponse 13248 4 = Some ''00 00 33 C0''"
  "toByteResponse 13248 6 = Some ''00 00 00 00 33 C0''"
  "toByteResponse 13248 0 = None"
  by code_simp+

text \<open>
  The digits that the loops write: the round with shift \<open>j = 8 * t + 4\<close> writes the byte
  of weight \<open>256 ^ t\<close>.
\<close>


lemma div16_mod16: "(y::nat) div 16 mod 16 = y mod 256 div 16"
proof -
  have "y mod 256 = y mod (16 * 16)" by simp
  also have "\<dots> = 16 * (y div 16 mod 16) + y mod 16" by (rule mod_mult2_eq)
  finally show ?thesis by simp
qed

lemma mod256_mod16: "(y::nat) mod 256 mod 16 = y mod 16"
  by (simp add: mod_mod_cancel)

lemma mask4: "(0x0F :: 32 word) = mask 4"
  by (simp add: mask_eq_exp_minus_1)

lemma unat_nibble:
  "unat (drop_bit j v AND (0x0F :: 32 word)) = unat v div 2 ^ j mod 16"
proof -
  have "unat (drop_bit j v AND mask 4) = take_bit 4 (drop_bit j (unat v))"
    by (simp add: unsigned_take_bit_eq unat_drop_bit_eq flip: take_bit_eq_mask)
  then show ?thesis
    by (simp add: mask4 take_bit_eq_mod drop_bit_eq_div)
qed

lemma nibble_hi: "unat (drop_bit (8 * t + 4) v AND (0x0F :: 32 word)) = byte_at v t div 16"
proof -
  have "(2::nat) ^ (8 * t + 4) = 256 ^ t * 16"
    by (simp add: power_add power_mult)
  then have "unat v div 2 ^ (8 * t + 4) mod 16 = unat v div 256 ^ t div 16 mod 16"
    by (simp add: div_mult2_eq)
  also have "\<dots> = unat v div 256 ^ t mod 256 div 16"
    by (rule div16_mod16)
  finally show ?thesis by (simp add: unat_nibble byte_at_def)
qed

lemma nibble_lo: "unat (drop_bit (8 * t) v AND (0x0F :: 32 word)) = byte_at v t mod 16"
proof -
  have "(2::nat) ^ (8 * t) = 256 ^ t"
    by (simp add: power_mult)
  then have "unat v div 2 ^ (8 * t) mod 16 = unat v div 256 ^ t mod 16"
    by simp
  also have "\<dots> = unat v div 256 ^ t mod 256 mod 16"
    by (simp add: mod256_mod16)
  finally show ?thesis by (simp add: unat_nibble byte_at_def)
qed

lemma hexLoop_done: "hexLoop v i j i = []"
  by (simp add: hexLoop.simps)

lemma hexLoop_bytes:
  "hexLoop v i (8 * k - 4) (i + 3 * k) =
     concat (map (\<lambda>t. hex2 (byte_at v t) @ '' '') (rev [0..<k]))"
proof (induction k arbitrary: i)
  case 0
  show ?case by (simp add: hexLoop_done)
next
  case (Suc k)
  have j: "8 * Suc k - 4 = 8 * k + 4" by simp
  have rest: "hexLoop v (i + 3) (8 * k + 4 - 8) (i + 3 * Suc k) =
     concat (map (\<lambda>t. hex2 (byte_at v t) @ '' '') (rev [0..<k]))"
  proof (cases k)
    case 0
    then show ?thesis by (simp add: hexLoop_done)
  next
    case (Suc k')
    have "8 * k + 4 - 8 = 8 * k - 4" using Suc by simp
    moreover have "i + 3 * Suc k = (i + 3) + 3 * k" by simp
    ultimately show ?thesis using Suc.IH [of "i + 3"] by (simp only:)
  qed
  have lo: "8 * k + 4 - 4 = 8 * k" by simp
  have step: "hexLoop v i (8 * k + 4) (i + 3 * Suc k) =
      hex2 (byte_at v k) @ '' '' @ hexLoop v (i + 3) (8 * k + 4 - 8) (i + 3 * Suc k)"
    by (subst hexLoop.simps) (simp only: lo nibble_hi nibble_lo hex2_def, simp)
  show ?case
    unfolding j step rest by simp
qed

lemma zeroLoop_zeros:
  "zeroLoop i (i + 3 * z) = concat (replicate z ''00 '')"
proof (induction z arbitrary: i)
  case 0
  show ?case by (simp add: zeroLoop.simps)
next
  case (Suc z)
  have "i + 3 * Suc z = (i + 3) + 3 * z" by simp
  then have "zeroLoop (i + 3) (i + 3 * Suc z) = concat (replicate z ''00 '')"
    using Suc.IH [of "i + 3"] by (simp only:)
  then show ?case by (subst zeroLoop.simps) simp
qed


lemma c_str_terminated:
  assumes "xs \<noteq> []" and "CHR 0x00 \<notin> set (butlast xs)"
  shows "c_str (xs[length xs - 1 := CHR 0x00]) = butlast xs"
proof -
  from assms(1) have "xs = butlast xs @ [last xs]" by simp
  then have "xs[length xs - 1 := CHR 0x00] = butlast xs @ [CHR 0x00]"
    by (metis length_butlast list_update_length)
  moreover have "takeWhile (\<lambda>c. c \<noteq> CHR 0x00) (butlast xs @ [CHR 0x00]) = butlast xs"
    using assms(2) by (induction "butlast xs") (auto simp: takeWhile_tail)
  ultimately show ?thesis by (simp add: c_str_def)
qed

lemma HEX_LUT_table:
  "\<forall>n \<in> set [0..<16].
     digit_value (HEX_LUT ! n) = Some n \<and> \<not> isspace (HEX_LUT ! n)
     \<and> HEX_LUT ! n \<noteq> CHR ''-'' \<and> HEX_LUT ! n \<noteq> CHR ''+''
     \<and> HEX_LUT ! n \<noteq> CHR 0x00 \<and> HEX_LUT ! n \<noteq> CHR '' ''"
  by code_simp

lemma HEX_LUT_digit:
  assumes "n < 16"
  shows "digit_value (HEX_LUT ! n) = Some n"
  using HEX_LUT_table assms by simp

lemma HEX_LUT_plain:
  assumes "n < 16"
  shows "\<not> isspace (HEX_LUT ! n) \<and> HEX_LUT ! n \<noteq> CHR ''-'' \<and> HEX_LUT ! n \<noteq> CHR ''+''
         \<and> HEX_LUT ! n \<noteq> CHR 0x00 \<and> HEX_LUT ! n \<noteq> CHR '' ''"
  using HEX_LUT_table assms by simp

lemma strtol_hex2:
  assumes "b < 256"
  shows "strtol (hex2 b) 16 = int b"
proof -
  have hi: "b div 16 < 16" and lo: "b mod 16 < 16" using assms by auto
  note p = HEX_LUT_plain [OF hi] HEX_LUT_plain [OF lo]
  note d = HEX_LUT_digit [OF hi] HEX_LUT_digit [OF lo]
  have "strtol [HEX_LUT ! (b div 16), HEX_LUT ! (b mod 16)] 16 = int (b div 16) * 16 + int (b mod 16)"
    using p d hi lo assms
    by (simp add: strtol_def c_str_def has_0x_prefix_def is_digit_def digit_or_zero_def
        LONG_MAX_def Let_def)
  also have "\<dots> = int b"
    by (simp add: zdiv_int zmod_int)
  finally show ?thesis by (simp add: hex2_def)
qed


lemma hex2_plain:
  assumes "b < 256"
  shows "filter (\<lambda>c. c \<noteq> CHR '' '') (hex2 b) = hex2 b"
    and "filter (\<lambda>c. \<not> isspace c) (hex2 b) = hex2 b"
    and "CHR 0x00 \<notin> set (hex2 b)"
proof -
  have hi: "b div 16 < 16" and lo: "b mod 16 < 16" using assms by auto
  note p = HEX_LUT_plain [OF hi] HEX_LUT_plain [OF lo]
  show "filter (\<lambda>c. c \<noteq> CHR '' '') (hex2 b) = hex2 b"
    and "filter (\<lambda>c. \<not> isspace c) (hex2 b) = hex2 b"
    and "CHR 0x00 \<notin> set (hex2 b)"
    using p by (auto simp: hex2_def)
qed

lemma spaced_hex_Cons: "spaced_hex (b # bs) = hex2 b @ '' '' @ spaced_hex bs"
  by (simp add: spaced_hex_def)

lemma spaced_hex_snoc: "spaced_hex (bs @ [b]) = spaced_hex bs @ hex2 b @ '' ''"
  by (simp add: spaced_hex_def)

lemma length_spaced_hex: "length (spaced_hex bs) = 3 * length bs"
  by (induction bs) (simp_all add: spaced_hex_def hex2_def)

lemma not_isspace_blank: "isspace (CHR '' '')"
  by (simp add: isspace_def)

lemma filter_spaced_hex:
  assumes "\<forall>b \<in> set bs. b < 256"
  shows "filter (\<lambda>c. c \<noteq> CHR '' '') (spaced_hex bs) = concat (map hex2 bs)"
  using assms
proof (induction bs)
  case Nil
  show ?case by (simp add: spaced_hex_def)
next
  case (Cons b bs)
  then have "b < 256" by simp
  from hex2_plain(1) [OF this] Cons show ?case
    by (simp add: spaced_hex_Cons)
qed

lemma filter_isspace_spaced_hex:
  assumes "\<forall>b \<in> set bs. b < 256"
  shows "filter (\<lambda>c. \<not> isspace c) (spaced_hex bs) = concat (map hex2 bs)"
  using assms
proof (induction bs)
  case Nil
  show ?case by (simp add: spaced_hex_def)
next
  case (Cons b bs)
  then have "b < 256" by simp
  from hex2_plain(2) [OF this] Cons show ?case
    by (simp add: spaced_hex_Cons not_isspace_blank)
qed

lemma butlast_spaced_hex:
  assumes "bs \<noteq> []"
  shows "butlast (spaced_hex bs) = spaced_hex (butlast bs) @ hex2 (last bs)"
proof -
  from assms have "bs = butlast bs @ [last bs]" by simp
  then have "spaced_hex bs = spaced_hex (butlast bs) @ hex2 (last bs) @ '' ''"
    by (metis spaced_hex_snoc)
  then show ?thesis by (simp add: butlast_append)
qed

lemma filter_butlast_spaced_hex:
  assumes "bs \<noteq> []" and "\<not> P (CHR '' '')"
  shows "filter P (butlast (spaced_hex bs)) = filter P (spaced_hex bs)"
proof -
  from assms(1) have "bs = butlast bs @ [last bs]" by simp
  then have "spaced_hex bs = spaced_hex (butlast bs) @ hex2 (last bs) @ '' ''"
    by (metis spaced_hex_snoc)
  then have "filter P (spaced_hex bs) = filter P (spaced_hex (butlast bs) @ hex2 (last bs))"
    using assms(2) by simp
  then show ?thesis
    by (simp only: butlast_spaced_hex [OF assms(1)])
qed

lemma no_NUL_spaced_hex:
  assumes "\<forall>b \<in> set bs. b < 256"
  shows "CHR 0x00 \<notin> set (spaced_hex bs)"
  using assms
proof (induction bs)
  case Nil
  show ?case by (simp add: spaced_hex_def)
next
  case (Cons b bs)
  then have "b < 256" by simp
  from hex2_plain(3) [OF this] Cons show ?case
    by (simp add: spaced_hex_Cons)
qed

lemma hexPairs_hex2:
  assumes "b < 256"
  shows "hexPairs (hex2 b @ rest) = word_of_nat b # hexPairs rest"
proof -
  have "hexPairs (hex2 b @ rest) = word_of_int (strtol (hex2 b) 16) # hexPairs rest"
    by (simp add: hex2_def)
  then show ?thesis by (simp add: strtol_hex2 [OF assms])
qed

lemma hexPairs_concat_hex2:
  assumes "\<forall>b \<in> set bs. b < 256"
  shows "hexPairs (concat (map hex2 bs)) = map word_of_nat bs"
  using assms by (induction bs) (simp_all add: hexPairs_hex2)


lemma le_value_append: "le_value (xs @ ys) = le_value xs + 256 ^ length xs * le_value ys"
  by (induction xs) (simp_all add: algebra_simps)

lemma le_value_zeros: "le_value (replicate z 0) = 0"
  by (induction z) simp_all

lemma unat_byte_of_nat: "b < 256 \<Longrightarrow> unat (word_of_nat b :: byte) = b"
  by (simp add: unat_of_nat)

lemma byte_at_less: "byte_at v t < 256"
  by (simp add: byte_at_def)

lemma le_value_byte_at:
  "le_value (map (\<lambda>t. word_of_nat (byte_at v t)) [0..<k]) = unat v mod 256 ^ k"
proof (induction k)
  case 0
  show ?case by simp
next
  case (Suc k)
  have "unat v mod 256 ^ Suc k = unat v mod (256 ^ k * 256)"
    by (simp add: mult.commute)
  also have "\<dots> = 256 ^ k * (unat v div 256 ^ k mod 256) + unat v mod 256 ^ k"
    by (rule mod_mult2_eq)
  finally show ?case
    using Suc by (simp add: le_value_append unat_byte_of_nat byte_at_less) (simp add: byte_at_def)
qed

lemma hex_step_hex2:
  assumes "b < 256"
  shows "foldl (\<lambda>a c. a * 16 + nat (digit_or_zero c)) a (hex2 b @ rest) =
         foldl (\<lambda>a c. a * 16 + nat (digit_or_zero c)) (a * 256 + b) rest"
proof -
  have hi: "b div 16 < 16" and lo: "b mod 16 < 16" using assms by auto
  have "(a * 16 + b div 16) * 16 + b mod 16 = a * 256 + (b div 16 * 16 + b mod 16)"
    by (simp add: algebra_simps)
  also have "\<dots> = a * 256 + b" by (simp only: div_mult_mod_eq)
  finally have acc: "(a * 16 + b div 16) * 16 + b mod 16 = a * 256 + b" .
  have "foldl (\<lambda>a c. a * 16 + nat (digit_or_zero c)) a (hex2 b @ rest) =
        foldl (\<lambda>a c. a * 16 + nat (digit_or_zero c)) ((a * 16 + b div 16) * 16 + b mod 16) rest"
    using HEX_LUT_digit [OF hi] HEX_LUT_digit [OF lo]
    by (simp add: hex2_def digit_or_zero_def)
  then show ?thesis by (simp only: acc)
qed

lemma hex_fold_concat:
  assumes "\<forall>b \<in> set bs. b < 256"
  shows "foldl (\<lambda>a c. a * 16 + nat (digit_or_zero c)) a (concat (map hex2 bs)) =
         a * 256 ^ length bs + be_value (map word_of_nat bs)"
  using assms
proof (induction bs arbitrary: a)
  case Nil
  show ?case by (simp add: be_value_def)
next
  case (Cons b bs)
  then have b: "b < 256" and bs: "\<forall>b \<in> set bs. b < 256" by simp_all
  have "foldl (\<lambda>a c. a * 16 + nat (digit_or_zero c)) a (concat (map hex2 (b # bs))) =
        foldl (\<lambda>a c. a * 16 + nat (digit_or_zero c)) (a * 256 + b) (concat (map hex2 bs))"
    using hex_step_hex2 [OF b] by simp
  also have "\<dots> = (a * 256 + b) * 256 ^ length bs + be_value (map word_of_nat bs)"
    by (rule Cons.IH [OF bs])
  finally show ?case
    by (simp add: be_value_def le_value_append unat_byte_of_nat [OF b] algebra_simps)
qed

lemma hex_value_concat:
  assumes "\<forall>b \<in> set bs. b < 256"
  shows "hex_value (concat (map hex2 bs)) = be_value (map word_of_nat bs)"
  using hex_fold_concat [OF assms, of 0] by (simp add: hex_value_def)

text \<open>What a buffer of spaced bytes gives back once its last blank is the terminator.\<close>

lemma terminated_spaced_hex:
  assumes "bs \<noteq> []" and "\<forall>b \<in> set bs. b < 256"
  defines "str \<equiv> c_str ((spaced_hex bs)[3 * length bs - 1 := CHR 0x00])"
  shows "literalHexStrToBytes str = map word_of_nat bs"
    and "hex_value (filter (\<lambda>c. \<not> isspace c) str) = be_value (map word_of_nat bs)"
    and "length str = 3 * length bs - 1"
proof -
  have ne: "spaced_hex bs \<noteq> []"
    using assms(1) length_spaced_hex [of bs] by (cases bs) auto
  have "CHR 0x00 \<notin> set (butlast (spaced_hex bs))"
    using no_NUL_spaced_hex [OF assms(2)] by (auto dest: in_set_butlastD)
  from c_str_terminated [OF ne this]
  have str: "str = butlast (spaced_hex bs)"
    by (simp add: str_def length_spaced_hex)
  show "literalHexStrToBytes str = map word_of_nat bs"
    by (simp add: str literalHexStrToBytes_def filter_butlast_spaced_hex [OF assms(1)]
        filter_spaced_hex [OF assms(2)] hexPairs_concat_hex2 [OF assms(2)])
  show "hex_value (filter (\<lambda>c. \<not> isspace c) str) = be_value (map word_of_nat bs)"
    by (simp add: str filter_butlast_spaced_hex [OF assms(1)] not_isspace_blank
        filter_isspace_spaced_hex [OF assms(2)] hex_value_concat [OF assms(2)])
  show "length str = 3 * length bs - 1"
    by (simp add: str length_spaced_hex)
qed


lemma sint_len_minus_4:
  fixes len :: "32 word"
  assumes "unat len \<le> 4096"
  shows "sint (len - 4) = int (unat len) - 4"
proof -
  have "int (unat len) \<le> 4096" using assms by linarith
  then have u: "uint len \<le> 4096" by (simp only: of_nat_unat)
  have "word_of_int (uint len - 4) = (word_of_int (uint len) :: 32 word) - word_of_int 4"
    by (rule wi_hom_sub [symmetric])
  then have "len - 4 = word_of_int (uint len - 4)"
    by (simp only: word_of_int_uint word_of_int_numeral)
  then have "sint (len - 4) = signed_take_bit (LENGTH(32) - 1) (uint len - 4)"
    by (simp only: sint_sbintrunc') 
  also have "\<dots> = uint len - 4"
    using u by (intro signed_take_bit_int_eq_self) auto
  finally show ?thesis by (simp only: of_nat_unat)
qed

lemma capped_len:
  fixes n :: "32 word"
  shows "unat (if n > MAX_UDS_SIZE then MAX_UDS_SIZE else n) = min (unat n) 4096"
  by (simp add: MAX_UDS_SIZE_def word_less_nat_alt min_def)

lemma toByteResponse_spaced_hex:
  fixes v n :: "32 word"
  assumes "1 \<le> n"
  defines "m \<equiv> min (unat n) 4096"
  shows "toByteResponse v n =
           Some (c_str ((spaced_hex (replicate (m - 4) 0 @ map (byte_at v) (rev [0..<min m 4])))
                          [3 * m - 1 := CHR 0x00]))"
proof -
  define len where "len = (if n > MAX_UDS_SIZE then MAX_UDS_SIZE else n)"
  have m: "unat len = m" by (simp add: len_def m_def capped_len)
  have m1: "1 \<le> m" using assms(1) by (simp add: m_def word_le_nat_alt)
  have m4096: "m \<le> 4096" by (simp add: m_def)
  have zf: "sint (len - 4) = int m - 4"
    using sint_len_minus_4 [of len] m m4096 by simp
  show ?thesis
  proof (cases "m < 4")
    case True
    have "hexLoop v 0 ((m * 2 - 1) * 4) (m * 3) = hexLoop v 0 (8 * m - 4) (0 + 3 * m)"
      by (simp add: algebra_simps diff_mult_distrib)
    also have "\<dots> = spaced_hex (map (byte_at v) (rev [0..<m]))"
      by (simp only: hexLoop_bytes spaced_hex_def map_map comp_def)
    finally have loop: "hexLoop v 0 ((m * 2 - 1) * 4) (m * 3) =
        spaced_hex (map (byte_at v) (rev [0..<m]))" .
    have br: "toByteResponse v n =
        (let space = m * 3; str = hexLoop v 0 ((m * 2 - 1) * 4) space
         in if space = 0 then None else Some (c_str (str[space - 1 := CHR 0x00])))"
      using True zf
      by (simp add: toByteResponse_def Let_def len_def [symmetric] m)
    show ?thesis
      unfolding br Let_def loop using True m1 by (simp add: min_def mult.commute)
  next
    case False
    then have z: "nat (int m - 4) = m - 4" and mz: "4 + (m - 4) = m" by simp_all
    have "zeroLoop 0 ((m - 4) * 3) = zeroLoop 0 (0 + 3 * (m - 4))" by (simp add: mult.commute)
    also have "\<dots> = concat (replicate (m - 4) ''00 '')" by (rule zeroLoop_zeros)
    also have "\<dots> = spaced_hex (replicate (m - 4) 0)"
      by (simp add: spaced_hex_def hex2_def HEX_LUT_def map_replicate)
    finally have zeros: "zeroLoop 0 ((m - 4) * 3) = spaced_hex (replicate (m - 4) 0)" .
    have "hexLoop v ((m - 4) * 3) ((4 * 2 - 1) * 4) (m * 3) =
          hexLoop v ((m - 4) * 3) (8 * 4 - 4) ((m - 4) * 3 + 3 * 4)"
      using False by (simp add: algebra_simps)
    also have "\<dots> = spaced_hex (map (byte_at v) (rev [0..<4]))"
      by (simp only: hexLoop_bytes spaced_hex_def map_map comp_def)
    finally have loop: "hexLoop v ((m - 4) * 3) ((4 * 2 - 1) * 4) (m * 3) =
        spaced_hex (map (byte_at v) (rev [0..<4]))" .
    have br: "toByteResponse v n =
        (let space = m * 3; valSpace = (m - 4) * 3;
             str = zeroLoop 0 valSpace @ hexLoop v valSpace ((4 * 2 - 1) * 4) space
         in Some (c_str (str[space - 1 := CHR 0x00])))"
      using False zf
      by (simp add: toByteResponse_def Let_def len_def [symmetric] m z mz)
    have app: "spaced_hex (replicate (m - 4) 0) @ spaced_hex (map (byte_at v) (rev [0..<4]))
        = spaced_hex (replicate (m - 4) 0 @ map (byte_at v) (rev [0..<4]))"
      by (simp add: spaced_hex_def)
    show ?thesis
      unfolding br Let_def zeros loop app using False by (simp add: min_def mult.commute)
  qed
qed


lemma mod_256_pow_min:
  fixes v :: "32 word"
  shows "unat v mod 256 ^ min m 4 = unat v mod 256 ^ m"
proof (cases "m < 4")
  case True
  then show ?thesis by (simp add: min_def)
next
  case False
  have v: "unat v < 256 ^ 4"
    using unsigned_less [of v, where ?'a = nat] by simp
  also have "(256::nat) ^ 4 \<le> 256 ^ m"
    using False by (intro power_increasing) auto
  finally have "unat v mod 256 ^ m = unat v" by simp
  moreover have "unat v mod 256 ^ 4 = unat v" using v by simp
  ultimately show ?thesis using False by (simp add: min_def)
qed


text \<open>
  C8: for every 32-bit value \<open>v\<close> and every length \<open>n\<close> from 1 on, \<open>toByteResponse v n\<close>
  returns a string of \<open>min n 4096\<close> bytes, which read big-endian are \<open>v\<close> cut to its low
  \<open>min n 4096\<close> bytes (all of \<open>v\<close>, padded with zero bytes in front, from four bytes
  on); the string without its blanks is a hexadecimal number with the same value.
\<close>

theorem C8_toByteResponse_round_trip:
  fixes v n :: "32 word"
  assumes "1 \<le> n"
  shows "\<exists>str. toByteResponse v n = Some str
           \<and> length (literalHexStrToBytes str) = min (unat n) 4096
           \<and> be_value (literalHexStrToBytes str) = unat v mod 256 ^ min (unat n) 4096
           \<and> hex_value (filter (\<lambda>c. \<not> isspace c) str) = unat v mod 256 ^ min (unat n) 4096"
proof -
  define m where "m = min (unat n) 4096"
  define bs where "bs = replicate (m - 4) 0 @ map (byte_at v) (rev [0..<min m 4])"
  define str where "str = c_str ((spaced_hex bs)[3 * length bs - 1 := CHR 0x00])"
  have m1: "1 \<le> m" using assms by (simp add: m_def word_le_nat_alt)
  have len: "length bs = m" by (simp add: bs_def)
  have ne: "bs \<noteq> []" using len m1 by auto
  have small: "\<forall>b \<in> set bs. b < 256" by (auto simp: bs_def byte_at_less)
  have res: "toByteResponse v n = Some str"
    using toByteResponse_spaced_hex [OF assms, of v]
    by (simp only: str_def bs_def [symmetric] m_def [symmetric] len)
  have bytes: "literalHexStrToBytes str = map word_of_nat bs"
    unfolding str_def by (rule terminated_spaced_hex(1) [OF ne small])
  have "rev (map word_of_nat bs) =
        map (\<lambda>t. word_of_nat (byte_at v t)) [0..<min m 4] @ replicate (m - 4) (0 :: byte)"
    by (simp add: bs_def rev_map map_replicate comp_def)
  then have "be_value (map word_of_nat bs :: byte list) = unat v mod 256 ^ min m 4"
    by (simp only: be_value_def le_value_append le_value_zeros le_value_byte_at)
  then have val: "be_value (map word_of_nat bs :: byte list) = unat v mod 256 ^ m"
    by (simp only: mod_256_pow_min)
  have hex: "hex_value (filter (\<lambda>c. \<not> isspace c) str) = be_value (map word_of_nat bs)"
    unfolding str_def by (rule terminated_spaced_hex(2) [OF ne small])
  show ?thesis
    using res bytes val hex len by (simp add: m_def)
qed

theorem C8_toByteResponse_round_trip_witness:
  "(1 :: 32 word) \<le> 2
   \<and> (\<exists>str. toByteResponse 13248 2 = Some str
          \<and> length (literalHexStrToBytes str) = 2
          \<and> be_value (literalHexStrToBytes str) = 13248
          \<and> hex_value (filter (\<lambda>c. \<not> isspace c) str) = 13248)"
proof -
  have n: "(1 :: 32 word) \<le> 2" by simp
  from C8_toByteResponse_round_trip [OF n, of 13248]
  show ?thesis using n by simp
qed

section \<open>The tree that the builder leaves\<close>

text \<open>
  The builder adds nodes and pointers to the store, and deletes the leaf of a key once
  the response is bound. When it is defined, the store is tidy between two keys, and a
  pattern that has led to a deleted node goes on leading there.
\<close>

lemma node_at_append:
  "node_at (h @ [x]) p = (if p < length h then node_at h p else if p = length h then x else None)"
  by (simp add: node_at_def nth_append)

lemma node_at_update:
  "node_at (h[q := x]) p = (if p = q \<and> q < length h then x else node_at h p)"
  by (auto simp: node_at_def)

lemma node_at_less: "node_at h p = Some n \<Longrightarrow> p < length h"
  by (simp add: node_at_def split: if_splits)

lemma deleted_node_at: "deleted h p \<Longrightarrow> node_at h p = None"
  by (simp add: deleted_def node_at_def)

lemma edge_children: "edge n e = Some c \<Longrightarrow> c \<in> set (children n)"
  by (cases e) (auto simp: edge_def children_def dest!: map_of_SomeD intro: rev_image_eqI)

lemma children_newNode: "children (newNode pc rl w) = []"
  by (simp add: children_def newNode_def)

lemma no_children_no_edge: "children n = [] \<Longrightarrow> edge n e = None"
  using edge_children [of n e] by (cases "edge n e") auto

lemma extends_refl: "extends h h"
  by (simp add: extends_def)

lemma extends_trans:
  assumes "extends h1 h2" and "extends h2 h3"
  shows "extends h1 h3"
  unfolding extends_def
proof (intro conjI allI impI)
  show "length h1 \<le> length h3" using assms unfolding extends_def by simp
next
  fix p assume "deleted h1 p"
  then show "deleted h3 p" using assms unfolding extends_def by blast
next
  fix p n assume a: "node_at h1 p = Some n"
  with assms(1) obtain n2 where n2: "node_at h2 p = Some n2"
    "\<forall>e c. edge n e = Some c \<longrightarrow> edge n2 e = Some c" unfolding extends_def by blast
  with assms(2) obtain n3 where n3: "node_at h3 p = Some n3"
    "\<forall>e c. edge n2 e = Some c \<longrightarrow> edge n3 e = Some c" unfolding extends_def by blast
  from n2(2) n3 show "\<exists>n'. node_at h3 p = Some n' \<and> (\<forall>e c. edge n e = Some c \<longrightarrow> edge n' e = Some c)"
    by blast
qed

lemma walk_extends:
  assumes "extends h h'"
  shows "walk h p es = Some q \<Longrightarrow> walk h' p es = Some q"
proof (induction es arbitrary: p)
  case Nil
  then show ?case by simp
next
  case (Cons e es)
  from Cons.prems obtain n c where n: "node_at h p = Some n" "edge n e = Some c"
    "walk h c es = Some q"
    by (auto split: option.splits)
  from assms n(1,2) obtain n' where "node_at h' p = Some n'" "edge n' e = Some c"
    unfolding extends_def by blast
  with Cons.IH [OF n(3)] show ?case by simp
qed

lemma edge_Wildcard [simp]: "edge n Wildcard = subsequentWildcard n"
  by (simp add: edge_def)

lemma edge_Placeholder [simp]: "edge n Placeholder = subsequentPlaceholder n"
  by (simp add: edge_def)

lemma edge_Concrete [simp]: "edge n (Concrete b) = map_of (subsequentByte n) b"
  by (simp add: edge_def)

lemma edge_luaResponse_update [simp]: "edge (n\<lparr>luaResponse := r\<rparr>) e = edge n e"
  by (cases e) simp_all

lemma edge_placeholderCount_update [simp]: "edge (n\<lparr>placeholderCount := x\<rparr>) e = edge n e"
  by (cases e) simp_all

text \<open>Adding a child: the parent gets one more edge, to the fresh node at the end.\<close>

lemma add_child:
  assumes p: "node_at h p = Some n"
    and e0: "edge n e = None"
    and n': "\<And>e'. edge n' e' = (if e' = e then Some (length h) else edge n e')"
    and lr: "luaResponse n' = luaResponse n"
    and pc: "placeholderCount n' = placeholderCount n"
    and l: "children l = []" "luaResponse l = None"
  shows "extends h (h[p := Some n'] @ [Some l])"
    and "unbound h \<Longrightarrow> unbound (h[p := Some n'] @ [Some l])"
    and "closed h \<Longrightarrow> closed (h[p := Some n'] @ [Some l])"
    and "closed h \<Longrightarrow> counted h
         \<Longrightarrow> (e = Placeholder \<Longrightarrow> placeholderCount l = placeholderCount n + 1)
         \<Longrightarrow> counted (h[p := Some n'] @ [Some l])"
    and "wildcards_deleted h
         \<Longrightarrow> \<forall>q m w. node_at (h[p := Some n'] @ [Some l]) q = Some m
                     \<and> subsequentWildcard m = Some w
                   \<longrightarrow> deleted (h[p := Some n'] @ [Some l]) w \<or> (e = Wildcard \<and> w = length h)"
proof -
  let ?h = "h[p := Some n'] @ [Some l]"
  have pl: "p < length h" using p by (rule node_at_less)
  have at: "\<And>q. node_at ?h q =
      (if q = p then Some n' else if q = length h then Some l else node_at h q)"
    using pl by (auto simp: node_at_def nth_append)
  have ledge: "\<And>e'. edge l e' = None" using l(1) by (rule no_children_no_edge)
  have del: "\<And>q. deleted h q \<Longrightarrow> deleted ?h q"
    using p by (auto simp: deleted_def nth_append node_at_def nth_list_update split: if_splits)
  show "extends h ?h"
    unfolding extends_def
  proof (intro conjI allI impI)
    show "length h \<le> length ?h" by simp
  next
    fix q assume "deleted h q" then show "deleted ?h q" by (rule del)
  next
    fix q m assume m: "node_at h q = Some m"
    show "\<exists>m'. node_at ?h q = Some m' \<and> (\<forall>e' c. edge m e' = Some c \<longrightarrow> edge m' e' = Some c)"
    proof (cases "q = p")
      case True
      with m p have "m = n" by simp
      then show ?thesis using True at [of q] n' e0 by auto
    next
      case False
      moreover have "q \<noteq> length h" using node_at_less [OF m] by simp
      ultimately show ?thesis using at [of q] m by simp
    qed
  qed
  show "unbound ?h" if "unbound h"
    using that p lr l(2) unfolding unbound_def by (auto simp: at split: if_splits)
  show c: "closed ?h" if "closed h"
    unfolding closed_def
  proof (intro allI impI)
    fix q m e' c
    assume a: "node_at ?h q = Some m \<and> edge m e' = Some c"
    show "c < length ?h"
    proof (cases "q = p")
      case True
      with a at [of q] have "m = n'" by simp
      with a n' [of e'] have "c = length h \<or> edge n e' = Some c" by (auto split: if_splits)
      then show ?thesis using that p unfolding closed_def by (auto intro: less_SucI)
    next
      case False
      show ?thesis
      proof (cases "q = length h")
        case True
        with False a at [of q] ledge show ?thesis by auto
      next
        case F2: False
        with False a at [of q] have "node_at h q = Some m" by simp
        with a that have "c < length h" unfolding closed_def by blast
        then show ?thesis by simp
      qed
    qed
  qed
  show "counted ?h" if cl: "closed h" and co: "counted h"
    and ph: "e = Placeholder \<Longrightarrow> placeholderCount l = placeholderCount n + 1"
    unfolding counted_def
  proof (intro allI impI)
    fix q m c k
    assume a: "node_at ?h q = Some m \<and> subsequentPlaceholder m = Some c \<and> node_at ?h c = Some k"
    then have em: "edge m Placeholder = Some c" by simp
    have ql: "q \<noteq> length h" using a at [of q] ledge [of Placeholder] pl by (auto split: if_splits)
    show "placeholderCount k = placeholderCount m + 1"
    proof (cases "q = p")
      case True
      with a at [of q] have mn: "m = n'" by simp
      show ?thesis
      proof (cases "e = Placeholder")
        case True
        with em mn n' [of Placeholder] have "c = length h" by simp
        with a at [of c] pl have "k = l" by (auto split: if_splits)
        with ph [OF True] mn pc show ?thesis by simp
      next
        case False
        with em mn n' [of Placeholder] have e0: "subsequentPlaceholder n = Some c" by simp
        with p cl have "c < length h" unfolding closed_def by (metis edge_Placeholder)
        show ?thesis
        proof (cases "c = p")
          case True
          with a at [of c] have "k = n'" by simp
          moreover from co p e0 True have "placeholderCount n = placeholderCount n + 1"
            unfolding counted_def by blast
          ultimately show ?thesis by simp
        next
          case F3: False
          with \<open>c < length h\<close> a at [of c] have "node_at h c = Some k" by simp
          with co p e0 have "placeholderCount k = placeholderCount n + 1"
            unfolding counted_def by blast
          then show ?thesis using mn pc by simp
        qed
      qed
    next
      case False
      with ql a at [of q] have mq: "node_at h q = Some m" by simp
      with cl em have cl': "c < length h" unfolding closed_def by blast
      show ?thesis
      proof (cases "c = p")
        case True
        with a at [of c] have "k = n'" by simp
        moreover from co mq a True p have "placeholderCount n = placeholderCount m + 1"
          unfolding counted_def by blast
        ultimately show ?thesis using pc by simp
      next
        case F3: False
        with cl' a at [of c] have "node_at h c = Some k" by simp
        with co mq a show ?thesis unfolding counted_def by blast
      qed
    qed
  qed
  show "\<forall>q m w. node_at ?h q = Some m \<and> subsequentWildcard m = Some w
          \<longrightarrow> deleted ?h w \<or> (e = Wildcard \<and> w = length h)"
    if wd: "wildcards_deleted h"
  proof (intro allI impI)
    fix q m w
    assume a: "node_at ?h q = Some m \<and> subsequentWildcard m = Some w"
    then have em: "edge m Wildcard = Some w" by simp
    have ql: "q \<noteq> length h" using a at [of q] ledge [of Wildcard] pl by (auto split: if_splits)
    show "deleted ?h w \<or> (e = Wildcard \<and> w = length h)"
    proof (cases "q = p")
      case True
      with a at [of q] have mn: "m = n'" by simp
      with em n' [of Wildcard] have "(e = Wildcard \<and> w = length h) \<or> subsequentWildcard n = Some w"
        by (auto split: if_splits)
      then show ?thesis using wd p del unfolding wildcards_deleted_def by blast
    next
      case False
      with ql a at [of q] have "node_at h q = Some m" by simp
      with wd a del show ?thesis unfolding wildcards_deleted_def by blast
    qed
  qed
qed

text \<open>
  What the three builder methods leave when they are defined. \<open>appendWildcard\<close> breaks
  one of the four properties of a tidy store for a moment: the wildcard child that it
  has made is still alive.
\<close>

lemma appendByte_props:
  assumes "appendByte uninit h p b = Defined (c, h')"
  shows "extends h h'"
    and "\<exists>n'. node_at h' p = Some n' \<and> edge n' (Concrete b) = Some c"
    and "tidy h \<Longrightarrow> tidy h'"
proof -
  from assms obtain n where n: "node_at h p = Some n"
    by (auto simp: appendByte_def split: option.splits)
  show "extends h h'" "\<exists>n'. node_at h' p = Some n' \<and> edge n' (Concrete b) = Some c"
    "tidy h \<Longrightarrow> tidy h'"
  proof (atomize (full), cases "map_of (subsequentByte n) b")
    case None
    let ?n = "n\<lparr>subsequentByte := subsequentByte n @ [(b, length h)]\<rparr>"
    let ?l = "newNode (placeholderCount n) (requestLength n + 1) (uninit (length h))
                :: 'a RequestByteTreeNode"
    from None n assms have res: "c = length h" "h' = h[p := Some ?n] @ [Some ?l]"
      by (auto simp: appendByte_def)
    have e0: "edge n (Concrete b) = None" using None by simp
    have new: "\<And>e'. edge ?n e' = (if e' = Concrete b then Some (length h) else edge n e')"
      using None by (simp add: edge_def map_add_def split: element.splits option.splits)
    have l: "children ?l = []" "luaResponse ?l = None"
      by (simp_all add: children_newNode) (simp add: newNode_def)
    note ac = add_child [OF n e0 new _ _ l]
    have at: "node_at h' p = Some ?n"
      using node_at_less [OF n] by (simp add: res node_at_def nth_append)
    have wd: "wildcards_deleted h'" if "wildcards_deleted h"
      using ac(5) [OF _ _ that] unfolding wildcards_deleted_def res by auto
    show "extends h h' \<and> (\<exists>n'. node_at h' p = Some n' \<and> edge n' (Concrete b) = Some c)
          \<and> (tidy h \<longrightarrow> tidy h')"
      using ac(1-4) wd at new [of "Concrete b"] unfolding tidy_def res by auto
  next
    case (Some c0)
    with n assms have res: "c = c0" "h' = h" by (auto simp: appendByte_def)
    show "extends h h' \<and> (\<exists>n'. node_at h' p = Some n' \<and> edge n' (Concrete b) = Some c)
          \<and> (tidy h \<longrightarrow> tidy h')"
      using n Some by (simp add: res extends_refl)
  qed
qed

lemma update_same_edges:
  assumes q: "node_at h q = Some m"
    and e: "\<And>e. edge m' e = edge m e"
    and lr: "luaResponse m' = luaResponse m"
  shows "extends h (h[q := Some m'])"
    and "closed h \<Longrightarrow> closed (h[q := Some m'])"
    and "\<And>p es. walk (h[q := Some m']) p es = walk h p es"
proof -
  let ?h = "h[q := Some m']"
  have at: "\<And>p. node_at ?h p = (if p = q then Some m' else node_at h p)"
    using node_at_less [OF q] by (simp add: node_at_update)
  show "extends h ?h"
    unfolding extends_def using q e at
    by (auto simp: deleted_def node_at_def nth_list_update split: if_splits)
  show "closed ?h" if "closed h"
    using that q e unfolding closed_def by (auto simp: at split: if_splits)
  show "\<And>p es. walk ?h p es = walk h p es"
  proof -
    fix p es
    show "walk ?h p es = walk h p es"
      by (induction es arbitrary: p) (auto simp: at q e split: option.splits)
  qed
qed

lemma appendPlaceholder_props:
  assumes "appendPlaceholder uninit h p = Defined (c, h')"
  shows "extends h h'"
    and "\<exists>n'. node_at h' p = Some n' \<and> edge n' Placeholder = Some c"
    and "tidy h \<Longrightarrow> tidy h'"
proof -
  from assms obtain n where n: "node_at h p = Some n"
    by (auto simp: appendPlaceholder_def split: option.splits)
  show "extends h h'" "\<exists>n'. node_at h' p = Some n' \<and> edge n' Placeholder = Some c"
    "tidy h \<Longrightarrow> tidy h'"
  proof (atomize (full), cases "subsequentPlaceholder n")
    case None
    let ?n = "n\<lparr>subsequentPlaceholder := Some (length h)\<rparr>"
    let ?l = "newNode (placeholderCount n + 1) (requestLength n + 1) (uninit (length h))
                :: 'a RequestByteTreeNode"
    from None n assms have res: "c = length h" "h' = h[p := Some ?n] @ [Some ?l]"
      by (auto simp: appendPlaceholder_def)
    have e0: "edge n Placeholder = None" using None by simp
    have new: "\<And>e'. edge ?n e' = (if e' = Placeholder then Some (length h) else edge n e')"
      by (simp add: edge_def split: element.splits)
    have l: "children ?l = []" "luaResponse ?l = None"
      by (simp_all add: children_newNode) (simp add: newNode_def)
    have pl: "placeholderCount ?l = placeholderCount n + 1" by (simp add: newNode_def)
    note ac = add_child [OF n e0 new _ _ l]
    have at: "node_at h' p = Some ?n"
      using node_at_less [OF n] by (simp add: res node_at_def nth_append)
    have wd: "wildcards_deleted h'" if "wildcards_deleted h"
      using ac(5) [OF _ _ that] unfolding wildcards_deleted_def res by auto
    show "extends h h' \<and> (\<exists>n'. node_at h' p = Some n' \<and> edge n' Placeholder = Some c)
          \<and> (tidy h \<longrightarrow> tidy h')"
      using ac(1-4) wd at pl unfolding tidy_def res by auto
  next
    case (Some c0)
    with n assms obtain m where m: "node_at h c0 = Some m"
      by (auto simp: appendPlaceholder_def split: option.splits)
    let ?m = "m\<lparr>placeholderCount := placeholderCount n + 1\<rparr>"
    from Some n m assms have res: "c = c0" "h' = h[c0 := Some ?m]"
      by (auto simp: appendPlaceholder_def)
    note us = update_same_edges [OF m, of ?m]
    have ex: "extends h h'" unfolding res by (rule us(1)) simp_all
    have at: "\<exists>n'. node_at h' p = Some n' \<and> edge n' Placeholder = Some c"
      using n Some m node_at_less [OF m] by (auto simp: res node_at_update)
    have td: "tidy h'" if t: "tidy h"
    proof -
      from t n Some m have "placeholderCount m = placeholderCount n + 1"
        unfolding tidy_def counted_def by blast
      then have "?m = m" by simp
      moreover have "h ! c0 = Some m" using m by (simp add: node_at_def split: if_splits)
      ultimately have "h' = h" unfolding res by (metis list_update_id)
      with t show ?thesis by simp
    qed
    show "extends h h' \<and> (\<exists>n'. node_at h' p = Some n' \<and> edge n' Placeholder = Some c)
          \<and> (tidy h \<longrightarrow> tidy h')"
      using ex at td by simp
  qed
qed

lemma appendWildcard_props:
  assumes "appendWildcard h p = Defined (Inr (c, h'))"
  shows "extends h h'"
    and "\<exists>n'. node_at h' p = Some n' \<and> edge n' Wildcard = Some c"
    and "\<exists>l. node_at h' c = Some l \<and> children l = []"
    and "tidy h \<Longrightarrow> unbound h' \<and> closed h' \<and> counted h'
           \<and> (\<forall>q m w. node_at h' q = Some m \<and> subsequentWildcard m = Some w
                 \<longrightarrow> deleted h' w \<or> w = c)"
proof -
  from assms obtain n where n: "node_at h p = Some n" and None: "subsequentWildcard n = None"
    by (auto simp: appendWildcard_def split: option.splits)
  let ?n = "n\<lparr>subsequentWildcard := Some (length h)\<rparr>"
  let ?l = "newNode (placeholderCount n) (requestLength n + 1) True :: 'a RequestByteTreeNode"
  from None n assms have res: "c = length h" "h' = h[p := Some ?n] @ [Some ?l]"
    by (auto simp: appendWildcard_def)
  have e0: "edge n Wildcard = None" using None by simp
  have new: "\<And>e'. edge ?n e' = (if e' = Wildcard then Some (length h) else edge n e')"
    by (simp add: edge_def split: element.splits)
  have l: "children ?l = []" "luaResponse ?l = None"
    by (simp_all add: children_newNode) (simp add: newNode_def)
  note ac = add_child [OF n e0 new _ _ l]
  show "extends h h'" using ac(1) by (simp add: res)
  show "\<exists>n'. node_at h' p = Some n' \<and> edge n' Wildcard = Some c"
    using node_at_less [OF n] by (simp add: res node_at_def nth_append)
  show "\<exists>l. node_at h' c = Some l \<and> children l = []"
    using l(1) by (simp add: res node_at_def nth_append)
  show "unbound h' \<and> closed h' \<and> counted h'
           \<and> (\<forall>q m w. node_at h' q = Some m \<and> subsequentWildcard m = Some w
                 \<longrightarrow> deleted h' w \<or> w = c)" if "tidy h"
    using ac(2-4) ac(5) [OF _ _ ] that unfolding tidy_def res by auto
qed

lemma appendWildcard_error:
  "appendWildcard h p = Defined (Inl e) \<Longrightarrow>
     e = DuplicateWildcard \<and> (\<exists>n w. node_at h p = Some n \<and> subsequentWildcard n = Some w)"
  by (auto simp: appendWildcard_def split: option.splits)

text \<open>
  What \<open>addRequestToTree\<close> leaves when it is defined: a store that extends the one it
  started from, also when it throws. For a key with a pattern, the pattern leads to a
  node of the new store, which is the leaf returned unless \<open>appendWildcard\<close> has thrown;
  a key without a pattern is the key that fails as invalid. The store stays tidy but for
  the wildcard leaf that is returned.
\<close>

lemma addRequestToTree_props:
  assumes "addRequestToTree uninit h p k = Defined (res, h')"
  shows "extends h h'
         \<and> (case pattern_of k of
               None \<Rightarrow> res = Inl InvalidPattern
             | Some es \<Rightarrow>
                 (\<exists>w. walk h' p es = Some w \<and> (res = Inr w \<or> res = Inl DuplicateWildcard)))
         \<and> (tidy h \<longrightarrow> unbound h' \<and> closed h' \<and> counted h'
               \<and> (\<forall>q m w. node_at h' q = Some m \<and> subsequentWildcard m = Some w
                     \<longrightarrow> deleted h' w \<or> res = Inr w))
         \<and> (\<forall>w. odd (length k) \<and> res = Inr w
               \<longrightarrow> (\<exists>l. node_at h' w = Some l \<and> children l = []))"
  using assms
proof (induction uninit h p k arbitrary: res h' rule: addRequestToTree.induct)
  case (1 uninit h p c1 c2 rest)
  have step: "extends h h'
         \<and> (case pattern_of (c1 # c2 # rest) of
               None \<Rightarrow> res = Inl InvalidPattern
             | Some es \<Rightarrow>
                 (\<exists>w. walk h' p es = Some w \<and> (res = Inr w \<or> res = Inl DuplicateWildcard)))
         \<and> (tidy h \<longrightarrow> unbound h' \<and> closed h' \<and> counted h'
               \<and> (\<forall>q m w. node_at h' q = Some m \<and> subsequentWildcard m = Some w
                     \<longrightarrow> deleted h' w \<or> res = Inr w))
         \<and> (\<forall>w. odd (length (c1 # c2 # rest)) \<and> res = Inr w
               \<longrightarrow> (\<exists>l. node_at h' w = Some l \<and> children l = []))"
    if h1: "extends h h1" "\<exists>n'. node_at h1 p = Some n' \<and> edge n' e = Some nxt"
      "tidy h \<Longrightarrow> tidy h1"
      and pat: "pattern_of (c1 # c2 # rest) = map_option ((#) e) (pattern_of rest)"
      and IH: "extends h1 h'
         \<and> (case pattern_of rest of
               None \<Rightarrow> res = Inl InvalidPattern
             | Some es \<Rightarrow>
                 (\<exists>w. walk h' nxt es = Some w \<and> (res = Inr w \<or> res = Inl DuplicateWildcard)))
         \<and> (tidy h1 \<longrightarrow> unbound h' \<and> closed h' \<and> counted h'
               \<and> (\<forall>q m w. node_at h' q = Some m \<and> subsequentWildcard m = Some w
                     \<longrightarrow> deleted h' w \<or> res = Inr w))
         \<and> (\<forall>w. odd (length rest) \<and> res = Inr w
               \<longrightarrow> (\<exists>l. node_at h' w = Some l \<and> children l = []))"
    for h1 e nxt
  proof -
    from h1(2) obtain n1 where n1: "node_at h1 p = Some n1" "edge n1 e = Some nxt" by blast
    with IH obtain n2 where n2: "node_at h' p = Some n2" "edge n2 e = Some nxt"
      unfolding extends_def by blast
    have w: "walk h' p (e # es) = walk h' nxt es" for es using n2 by simp
    show ?thesis
      using IH h1(3) extends_trans [OF h1(1)] w unfolding pat
      by (auto split: option.splits)
  qed
  show ?case
  proof (cases "is_REQUEST_PLACEHOLDER [c1, c2]")
    case True
    from "1.prems" True obtain nxt h1 where ap: "appendPlaceholder uninit h p = Defined (nxt, h1)"
      and rec: "addRequestToTree uninit h1 nxt rest = Defined (res, h')"
      by (auto split: result.splits)
    have pat: "pattern_of (c1 # c2 # rest) = map_option ((#) Placeholder) (pattern_of rest)"
      using True by simp
    from step [OF appendPlaceholder_props [OF ap] pat "1.IH"(1) [OF True ap refl rec]]
    show ?thesis .
  next
    case False
    show ?thesis
    proof (cases "literalHexStrToBytes [c1, c2]")
      case Nil
      with False "1.prems" show ?thesis by (auto simp: extends_refl tidy_def wildcards_deleted_def)
    next
      case (Cons b bs)
      from "1.prems" False Cons obtain nxt h1 where ab: "appendByte uninit h p b = Defined (nxt, h1)"
        and rec: "addRequestToTree uninit h1 nxt rest = Defined (res, h')"
        by (auto split: result.splits)
      have pat: "pattern_of (c1 # c2 # rest) = map_option ((#) (Concrete b)) (pattern_of rest)"
        using False Cons by simp
      from step [OF appendByte_props [OF ab] pat "1.IH"(2) [OF False Cons ab refl rec]]
      show ?thesis .
    qed
  qed
next
  case (2 uninit h p c)
  show ?case
  proof (cases "c = CHR ''*''")
    case True
    from "2.prems" True obtain r where aw: "appendWildcard h p = Defined r"
      by (auto split: result.splits)
    show ?thesis
    proof (cases r)
      case (Inl e)
      from appendWildcard_error [OF aw [unfolded Inl]] obtain n w where
        e: "e = DuplicateWildcard" "node_at h p = Some n" "subsequentWildcard n = Some w"
        by blast
      from "2.prems" True aw Inl have "res = Inl e" "h' = h" by auto
      with e True show ?thesis
        by (auto simp: extends_refl tidy_def wildcards_deleted_def)
    next
      case (Inr r')
      obtain nxt h1 where r': "r' = (nxt, h1)" by force
      from "2.prems" True aw Inr r' have res: "res = Inr nxt" "h' = h1" by auto
      from appendWildcard_props [OF aw [unfolded Inr r']] True show ?thesis
        unfolding res by auto
    qed
  next
    case False
    with "2.prems" show ?thesis by (auto simp: extends_refl tidy_def wildcards_deleted_def)
  qed
next
  case (3 uninit h p)
  then show ?case by (auto simp: extends_refl tidy_def wildcards_deleted_def)
qed

text \<open>
  What a deletion leaves when it is defined: the nodes that are still alive are those
  they were, the nodes asked for were alive and are deleted, and a node is deleted only
  together with all its children, which were alive.
\<close>

lemma deleteNodes_props:
  assumes "deleteNodes h ps = Defined h'"
  shows "length h' = length h
         \<and> (\<forall>q n. node_at h' q = Some n \<longrightarrow> node_at h q = Some n)
         \<and> (\<forall>p \<in> set ps. node_at h p \<noteq> None \<and> node_at h' p = None)
         \<and> (\<forall>q n. node_at h q = Some n \<and> node_at h' q = None
               \<longrightarrow> (\<forall>c \<in> set (children n). node_at h c \<noteq> None \<and> node_at h' c = None))"
  using assms
proof (induction h ps arbitrary: h' rule: deleteNodes.induct)
  case (1 h)
  then show ?case by auto
next
  case (2 h p ps)
  from "2.prems" obtain n where n: "node_at h p = Some n"
    and rec: "deleteNodes (h[p := None]) (children n @ ps) = Defined h'"
    by (auto split: option.splits)
  let ?h1 = "h[p := None]"
  have pl: "p < length h" using n by (rule node_at_less)
  have at: "\<And>q. node_at ?h1 q = (if q = p then None else node_at h q)"
    using pl by (simp add: node_at_update)
  from "2.IH" [OF n rec]
  have len: "length h' = length ?h1"
    and keep: "\<And>q m. node_at h' q = Some m \<Longrightarrow> node_at ?h1 q = Some m"
    and gone: "\<And>r. r \<in> set (children n @ ps) \<Longrightarrow> node_at ?h1 r \<noteq> None \<and> node_at h' r = None"
    and below: "\<And>q m c. node_at ?h1 q = Some m \<Longrightarrow> node_at h' q = None \<Longrightarrow> c \<in> set (children m)
                  \<Longrightarrow> node_at ?h1 c \<noteq> None \<and> node_at h' c = None"
    by blast+
  have pgone: "node_at h' p = None"
    using keep [of p] at [of p] by (cases "node_at h' p") auto
  have k: "\<forall>q m. node_at h' q = Some m \<longrightarrow> node_at h q = Some m"
  proof (intro allI impI)
    fix q m assume "node_at h' q = Some m"
    from keep [OF this] at [of q] show "node_at h q = Some m" by (simp split: if_splits)
  qed
  have g: "\<forall>r \<in> set (p # ps). node_at h r \<noteq> None \<and> node_at h' r = None"
  proof
    fix r assume r: "r \<in> set (p # ps)"
    show "node_at h r \<noteq> None \<and> node_at h' r = None"
    proof (cases "r = p")
      case True
      with n pgone show ?thesis by simp
    next
      case False
      with r have "r \<in> set (children n @ ps)" by simp
      from gone [OF this] False at [of r] show ?thesis by simp
    qed
  qed
  have b: "\<forall>q m. node_at h q = Some m \<and> node_at h' q = None
             \<longrightarrow> (\<forall>c \<in> set (children m). node_at h c \<noteq> None \<and> node_at h' c = None)"
  proof (intro allI impI ballI)
    fix q m c
    assume a: "node_at h q = Some m \<and> node_at h' q = None" and c: "c \<in> set (children m)"
    show "node_at h c \<noteq> None \<and> node_at h' c = None"
    proof (cases "q = p")
      case True
      with a n have "m = n" by simp
      with c gone [of c] at [of c] show ?thesis by (auto split: if_splits)
    next
      case False
      with a at [of q] have "node_at ?h1 q = Some m" by simp
      from below [OF this _ c] a at [of c] show ?thesis by (auto split: if_splits)
    qed
  qed
  show ?case
  proof (intro conjI)
    show "length h' = length h" using len by simp
    show "\<forall>q n. node_at h' q = Some n \<longrightarrow> node_at h q = Some n" by (rule k)
    show "\<forall>r \<in> set (p # ps). node_at h r \<noteq> None \<and> node_at h' r = None" by (rule g)
    show "\<forall>q m. node_at h q = Some m \<and> node_at h' q = None
             \<longrightarrow> (\<forall>c \<in> set (children m). node_at h c \<noteq> None \<and> node_at h' c = None)"
      by (rule b)
  qed
qed

lemma deleteNodes_leaf:
  assumes "node_at h w = Some n" and "children n = []"
  shows "deleteNodes h [w] = Defined (h[w := None])"
  using assms by simp

text \<open>
  A pattern that leads to a deleted node still leads there after a deletion that is
  defined: had the deletion taken a node on the way, it would have come to the deleted
  node and deleted it a second time.
\<close>

lemma walk_deleteNodes:
  assumes "deleteNodes h ps = Defined h'" and "node_at h w = None"
  shows "es \<noteq> [] \<Longrightarrow> walk h p es = Some w \<Longrightarrow> walk h' p es = Some w"
proof (induction es arbitrary: p)
  case Nil
  then show ?case by simp
next
  case (Cons e es)
  from Cons.prems(2) obtain n c where n: "node_at h p = Some n" "edge n e = Some c"
    "walk h c es = Some w"
    by (auto split: option.splits)
  note dp = deleteNodes_props [OF assms(1)]
  have k: "\<And>q m. node_at h' q = Some m \<Longrightarrow> node_at h q = Some m" using dp by blast
  have b: "\<And>q m c. node_at h q = Some m \<Longrightarrow> node_at h' q = None \<Longrightarrow> c \<in> set (children m)
             \<Longrightarrow> node_at h c \<noteq> None \<and> node_at h' c = None" using dp by blast
  have c: "c \<in> set (children n)" using n(2) by (rule edge_children)
  have alive: "node_at h' p = Some n"
  proof (cases "node_at h' p")
    case None
    from b [OF n(1) None c] have cc: "node_at h c \<noteq> None" "node_at h' c = None" by simp_all
    show ?thesis
    proof (cases es)
      case Nil
      with n(3) cc(1) assms(2) show ?thesis by simp
    next
      case (Cons e' es')
      with Cons.IH [OF _ n(3)] cc(2) show ?thesis by simp
    qed
  next
    case (Some n')
    with k [of p n'] n(1) show ?thesis by simp
  qed
  show ?case
  proof (cases es)
    case Nil
    with n alive show ?thesis by simp
  next
    case (Cons e' es')
    with Cons.IH [OF _ n(3)] n alive show ?thesis by simp
  qed
qed

lemma walk_delete_leaf:
  assumes "node_at h w = Some l" and "children l = []"
  shows "es \<noteq> [] \<Longrightarrow> walk h p es = Some q \<Longrightarrow> walk (h[w := None]) p es = Some q"
proof (induction es arbitrary: p)
  case Nil
  then show ?case by simp
next
  case (Cons e es)
  from Cons.prems(2) obtain n c where n: "node_at h p = Some n" "edge n e = Some c"
    "walk h c es = Some q"
    by (auto split: option.splits)
  have "p \<noteq> w" using n(1,2) assms no_children_no_edge [OF assms(2), of e] by auto
  then have alive: "node_at (h[w := None]) p = Some n" using n(1) by (simp add: node_at_update)
  show ?case
  proof (cases es)
    case Nil
    with n alive show ?thesis by simp
  next
    case (Cons e' es')
    with Cons.IH [OF _ n(3)] n alive show ?thesis by simp
  qed
qed

lemma walk_snoc:
  "walk h p (es @ [e]) = Some w \<Longrightarrow>
     \<exists>q n. walk h p es = Some q \<and> node_at h q = Some n \<and> edge n e = Some w"
  by (induction es arbitrary: p) (auto split: option.splits)

text \<open>
  Binding the response: \<open>setLuaResponse\<close> and the deletion of the leaf that follows it
  leave a tidy store.
\<close>

lemma setLuaResponse_props:
  assumes "setLuaResponse h leaf r = Defined (owner, h')"
  shows "owner = leaf" and "\<exists>n. node_at h leaf = Some n \<and> h' = h[leaf := Some (n\<lparr>luaResponse := Some r\<rparr>)]"
    and "extends h h'" and "\<And>p es. walk h' p es = walk h p es"
proof -
  from assms obtain n where n: "node_at h leaf = Some n"
    and res: "owner = leaf" "h' = h[leaf := Some (n\<lparr>luaResponse := Some r\<rparr>)]"
    by (auto simp: setLuaResponse_def split: option.splits)
  show "owner = leaf" by (rule res)
  show "\<exists>n. node_at h leaf = Some n \<and> h' = h[leaf := Some (n\<lparr>luaResponse := Some r\<rparr>)]"
    using n res by blast
  have e: "\<And>e. edge (n\<lparr>luaResponse := Some r\<rparr>) e = edge n e" by simp
  have ext: "extends h (h[leaf := Some (n\<lparr>luaResponse := Some r\<rparr>)])"
    unfolding extends_def using n node_at_less [OF n]
    by (auto simp: deleted_def node_at_def nth_list_update split: if_splits)
  then show "extends h h'" by (simp add: res)
  show "\<And>p es. walk h' p es = walk h p es"
  proof -
    fix p es
    show "walk h' p es = walk h p es"
      unfolding res
      by (induction es arbitrary: p)
        (auto simp: node_at_update n node_at_less [OF n] split: option.splits)
  qed
qed

lemma bind_tidy:
  assumes inv: "unbound h" "closed h" "counted h"
    "\<forall>q m w. node_at h q = Some m \<and> subsequentWildcard m = Some w
       \<longrightarrow> deleted h w \<or> w = leaf"
    and set: "setLuaResponse h leaf r = Defined (owner, h2)"
    and del: "deleteNodes h2 [owner] = Defined h3"
  shows "tidy h3"
proof -
  from setLuaResponse_props(1,2) [OF set] obtain n where n: "node_at h leaf = Some n"
    and res: "owner = leaf" "h2 = h[leaf := Some (n\<lparr>luaResponse := Some r\<rparr>)]"
    by blast
  note dp = deleteNodes_props [OF del]
  have k3: "\<And>q m. node_at h3 q = Some m \<Longrightarrow> node_at h2 q = Some m" using dp by blast
  have ll: "leaf < length h" using n by (rule node_at_less)
  have len: "length h3 = length h" using dp by (simp add: res)
  have gone: "node_at h3 leaf = None" using dp by (simp add: res)
  have keep: "node_at h q = Some m \<and> q \<noteq> leaf" if "node_at h3 q = Some m" for q m
  proof -
    from that have "node_at h2 q = Some m" by (rule k3)
    moreover from that gone have "q \<noteq> leaf" by auto
    ultimately show ?thesis using ll by (simp add: res node_at_update)
  qed
  have dead: "deleted h3 w" if "deleted h w" for w
  proof -
    from that n have "w \<noteq> leaf" by (auto simp: deleted_def node_at_def split: if_splits)
    with that have "node_at h2 w = None" by (simp add: res node_at_update deleted_node_at)
    with k3 [of w] have "node_at h3 w = None" by (cases "node_at h3 w") auto
    with that len show ?thesis by (simp add: deleted_def node_at_def)
  qed
  have dl: "deleted h3 leaf" using gone ll len by (simp add: deleted_def node_at_def)
  have "unbound h3" using inv(1) keep unfolding unbound_def by blast
  moreover have "closed h3"
    unfolding closed_def
  proof (intro allI impI)
    fix q m e c assume "node_at h3 q = Some m \<and> edge m e = Some c"
    with keep [of q m] inv(2) show "c < length h3" unfolding closed_def len by blast
  qed
  moreover have "counted h3" using inv(3) keep unfolding counted_def by blast
  moreover have "wildcards_deleted h3"
    unfolding wildcards_deleted_def using inv(4) keep dead dl by blast
  ultimately show ?thesis by (simp add: tidy_def)
qed

text \<open>
  One key of the builder, and then all of them: the store stays tidy, and a pattern that
  leads to a deleted node goes on leading there.
\<close>

lemma tidy_root: "tidy [Some (newNode 0 0 w)]"
  by (auto simp: tidy_def unbound_def closed_def counted_def wildcards_deleted_def node_at_def
      newNode_def edge_def split: element.splits)

lemma buildLoop_Cons:
  assumes "buildLoop uninit f h root (k # ks) = Defined (h', ignored)"
  shows "\<exists>res h1 h2 ignored'.
           addRequestToTree uninit h root (cleanupString k) = Defined (res, h1)
           \<and> buildLoop uninit f h2 root ks = Defined (h', ignored')
           \<and> (case res of
                 Inl e \<Rightarrow> h2 = h1
               | Inr leaf \<Rightarrow>
                   (\<exists>h1'. setLuaResponse h1 leaf (f k) = Defined (leaf, h1')
                          \<and> deleteNodes h1' [leaf] = Defined h2))
           \<and> ignored = (case res of Inl e \<Rightarrow> (k, e) # ignored' | Inr leaf \<Rightarrow> ignored')"
proof -
  from assms obtain res h1 where a: "addRequestToTree uninit h root (cleanupString k) = Defined (res, h1)"
    by (auto simp: Let_def split: result.splits)
  show ?thesis
  proof (cases res)
    case (Inl e)
    with assms a show ?thesis by (auto simp: Let_def split: result.splits)
  next
    case (Inr leaf)
    with assms a obtain owner h1' where s: "setLuaResponse h1 leaf (f k) = Defined (owner, h1')"
      by (auto simp: Let_def split: result.splits)
    from setLuaResponse_props(1) [OF s] have o: "owner = leaf" .
    from assms a Inr s o obtain h2 where d: "deleteNodes h1' [leaf] = Defined h2"
      and r: "buildLoop uninit f h2 root ks = Defined (h', ignored)"
      by (auto simp: Let_def simp del: deleteNodes.simps split: result.splits)
    show ?thesis
      apply (rule exI [of _ res], rule exI [of _ h1], rule exI [of _ h2], rule exI [of _ ignored])
      using a Inr s o d r by (simp del: deleteNodes.simps)
  qed
qed

lemma pattern_of_odd:
  "pattern_of k = Some ps \<Longrightarrow> odd (length k) \<longleftrightarrow> ps \<noteq> [] \<and> last ps = Wildcard"
proof (induction k arbitrary: ps rule: pattern_of.induct)
  case (1 c1 c2 rest)
  show ?case
  proof (cases "is_REQUEST_PLACEHOLDER [c1, c2]")
    case True
    with "1.prems" obtain ps' where ps': "pattern_of rest = Some ps'" "ps = Placeholder # ps'"
      by auto
    from "1.IH"(1) [OF True ps'(1)] ps'(2) show ?thesis by auto
  next
    case False
    with "1.prems" obtain b bs ps' where b: "literalHexStrToBytes [c1, c2] = b # bs"
      "pattern_of rest = Some ps'" "ps = Concrete b # ps'"
      by (auto split: list.splits)
    from "1.IH"(2) [OF False b(1,2)] b(3) show ?thesis by auto
  qed
next
  case (2 c)
  then show ?case by (auto split: if_splits)
next
  case 3
  then show ?case by simp
qed

lemma build_step:
  assumes t: "tidy h"
    and a: "addRequestToTree uninit h root k = Defined (res, h1)"
    and r: "case res of
              Inl e \<Rightarrow> h2 = h1
            | Inr leaf \<Rightarrow> (\<exists>h1'. setLuaResponse h1 leaf r = Defined (leaf, h1')
                               \<and> deleteNodes h1' [leaf] = Defined h2)"
  shows "tidy h2"
    and "\<And>es w. es \<noteq> [] \<Longrightarrow> walk h root es = Some w \<Longrightarrow> deleted h w
           \<Longrightarrow> walk h2 root es = Some w \<and> deleted h2 w"
    and "\<And>es. pattern_of k = Some (es @ [Wildcard])
           \<Longrightarrow> \<exists>w. walk h2 root (es @ [Wildcard]) = Some w \<and> deleted h2 w"
proof -
  from addRequestToTree_props [OF a] t
  have ext: "extends h h1"
    and pat: "case pattern_of k of
               None \<Rightarrow> res = Inl InvalidPattern
             | Some es \<Rightarrow>
                 (\<exists>w. walk h1 root es = Some w \<and> (res = Inr w \<or> res = Inl DuplicateWildcard))"
    and inv: "unbound h1" "closed h1" "counted h1"
      "\<forall>q m w. node_at h1 q = Some m \<and> subsequentWildcard m = Some w
          \<longrightarrow> deleted h1 w \<or> res = Inr w"
    and leaf: "\<forall>w. odd (length k) \<and> res = Inr w
               \<longrightarrow> (\<exists>l. node_at h1 w = Some l \<and> children l = [])"
    by simp_all
  show "tidy h2" "\<And>es w. es \<noteq> [] \<Longrightarrow> walk h root es = Some w \<Longrightarrow> deleted h w
           \<Longrightarrow> walk h2 root es = Some w \<and> deleted h2 w"
    "\<And>es. pattern_of k = Some (es @ [Wildcard])
           \<Longrightarrow> \<exists>w. walk h2 root (es @ [Wildcard]) = Some w \<and> deleted h2 w"
  proof (atomize (full), cases res)
    case (Inl e)
    with r have h2: "h2 = h1" by simp
    have t1: "tidy h1" using inv Inl by (simp add: tidy_def wildcards_deleted_def)
    have keep: "walk h1 root es = Some w \<and> deleted h1 w"
      if "walk h root es = Some w" "deleted h w" for es w
      using that walk_extends [OF ext] ext unfolding extends_def by blast
    have new: "\<exists>w. walk h1 root (es @ [Wildcard]) = Some w \<and> deleted h1 w"
      if p: "pattern_of k = Some (es @ [Wildcard])" for es
    proof -
      from pat p obtain w where w: "walk h1 root (es @ [Wildcard]) = Some w" by auto
      from walk_snoc [OF w] obtain q n where "node_at h1 q = Some n" "subsequentWildcard n = Some w"
        by auto
      with t1 have "deleted h1 w" unfolding tidy_def wildcards_deleted_def by blast
      with w show ?thesis by blast
    qed
    show "tidy h2
          \<and> (\<forall>es w. es \<noteq> [] \<longrightarrow> walk h root es = Some w \<longrightarrow> deleted h w
                \<longrightarrow> walk h2 root es = Some w \<and> deleted h2 w)
          \<and> (\<forall>es. pattern_of k = Some (es @ [Wildcard])
                \<longrightarrow> (\<exists>w. walk h2 root (es @ [Wildcard]) = Some w \<and> deleted h2 w))"
      using t1 keep new unfolding h2 by blast
  next
    case (Inr lf)
    with r obtain h1' where s: "setLuaResponse h1 lf r = Defined (lf, h1')"
      and d: "deleteNodes h1' [lf] = Defined h2" by auto
    from inv(4) Inr have inv4: "\<forall>q m w. node_at h1 q = Some m \<and> subsequentWildcard m = Some w
          \<longrightarrow> deleted h1 w \<or> w = lf" by blast
    have t2: "tidy h2" using bind_tidy [OF inv(1-3) inv4 s d] .
    from setLuaResponse_props(2) [OF s] obtain n where n: "node_at h1 lf = Some n"
      and h1': "h1' = h1[lf := Some (n\<lparr>luaResponse := Some r\<rparr>)]" by blast
    note ws = setLuaResponse_props(4) [OF s]
    note dp = deleteNodes_props [OF d]
    have len: "length h2 = length h1" using dp by (simp add: h1')
    have k2: "\<And>q m. node_at h2 q = Some m \<Longrightarrow> node_at h1' q = Some m" using dp by blast
    have dead: "node_at h1' w = None \<and> deleted h2 w" if "deleted h1 w" for w
    proof -
      from that n have "w \<noteq> lf" by (auto simp: deleted_def node_at_def split: if_splits)
      with that have x: "node_at h1' w = None" by (simp add: h1' node_at_update deleted_node_at)
      with k2 [of w] have "node_at h2 w = None" by (cases "node_at h2 w") auto
      with that len x show ?thesis by (simp add: deleted_def node_at_def)
    qed
    have keep: "walk h2 root es = Some w \<and> deleted h2 w"
      if "es \<noteq> []" "walk h root es = Some w" "deleted h w" for es w
    proof -
      from that walk_extends [OF ext] ext have "walk h1 root es = Some w" "deleted h1 w"
        unfolding extends_def by blast+
      with dead [of w] ws have "walk h1' root es = Some w" "node_at h1' w = None" "deleted h2 w"
        by simp_all
      with walk_deleteNodes [OF d this(2) that(1)] show ?thesis by simp
    qed
    have new: "\<exists>w. walk h2 root (es @ [Wildcard]) = Some w \<and> deleted h2 w"
      if p: "pattern_of k = Some (es @ [Wildcard])" for es
    proof -
      from pat p Inr have w: "walk h1 root (es @ [Wildcard]) = Some lf" by auto
      have "odd (length k)" using pattern_of_odd [OF p] by simp
      with leaf Inr obtain l where l: "node_at h1 lf = Some l" "children l = []" by blast
      with n have nl: "children n = []" by simp
      have l': "node_at h1' lf = Some (n\<lparr>luaResponse := Some r\<rparr>)"
        "children (n\<lparr>luaResponse := Some r\<rparr>) = []"
        using nl node_at_less [OF n] by (simp_all add: h1' node_at_update children_def)
      from deleteNodes_leaf [OF l'] d have h2: "h2 = h1'[lf := None]" by simp
      from w ws have "walk h1' root (es @ [Wildcard]) = Some lf" by simp
      from walk_delete_leaf [OF l' _ this] have "walk h2 root (es @ [Wildcard]) = Some lf"
        by (simp add: h2)
      moreover have "deleted h2 lf"
        using node_at_less [OF n] by (simp add: h2 h1' deleted_def)
      ultimately show ?thesis by blast
    qed
    show "tidy h2
          \<and> (\<forall>es w. es \<noteq> [] \<longrightarrow> walk h root es = Some w \<longrightarrow> deleted h w
                \<longrightarrow> walk h2 root es = Some w \<and> deleted h2 w)
          \<and> (\<forall>es. pattern_of k = Some (es @ [Wildcard])
                \<longrightarrow> (\<exists>w. walk h2 root (es @ [Wildcard]) = Some w \<and> deleted h2 w))"
      using t2 keep new by blast
  qed
qed

lemma buildLoop_props:
  assumes "tidy h" and "buildLoop uninit f h root ks = Defined (h', ignored)"
  shows "tidy h'
         \<and> (\<forall>es w. es \<noteq> [] \<and> walk h root es = Some w \<and> deleted h w
               \<longrightarrow> walk h' root es = Some w \<and> deleted h' w)"
  using assms
proof (induction ks arbitrary: h ignored)
  case Nil
  then show ?case by simp
next
  case (Cons k ks)
  from buildLoop_Cons [OF Cons.prems(2)] obtain res h1 h2 ignored' where
    a: "addRequestToTree uninit h root (cleanupString k) = Defined (res, h1)"
    and b: "buildLoop uninit f h2 root ks = Defined (h', ignored')"
    and r: "case res of
              Inl e \<Rightarrow> h2 = h1
            | Inr leaf \<Rightarrow> (\<exists>h1'. setLuaResponse h1 leaf (f k) = Defined (leaf, h1')
                               \<and> deleteNodes h1' [leaf] = Defined h2)"
    by blast
  note st = build_step [OF Cons.prems(1) a r]
  from Cons.IH [OF st(1) b] st(2) show ?case by blast
qed

lemma buildLoop_append:
  "buildLoop uninit f h root (xs @ ys) =
     (case buildLoop uninit f h root xs of
        Undefined \<Rightarrow> Undefined
      | Defined (h1, ignored1) \<Rightarrow>
          (case buildLoop uninit f h1 root ys of
             Undefined \<Rightarrow> Undefined
           | Defined (h2, ignored2) \<Rightarrow> Defined (h2, ignored1 @ ignored2)))"
  by (induction xs arbitrary: h)
    (auto simp: Let_def split: result.splits sum.splits prod.splits)

text \<open>
  A pattern that ends in the wildcard and is in the tree already makes its key fail, and
  the tree is left as it was.
\<close>

lemma addRequestToTree_duplicate:
  assumes "counted h" and "pattern_of k = Some (es @ [Wildcard])"
    and "walk h p (es @ [Wildcard]) = Some w"
  shows "addRequestToTree uninit h p k = Defined (Inl DuplicateWildcard, h)"
  using assms
proof (induction uninit h p k arbitrary: es rule: addRequestToTree.induct)
  case (1 uninit h p c1 c2 rest)
  show ?case
  proof (cases "is_REQUEST_PLACEHOLDER [c1, c2]")
    case True
    with "1.prems"(2) obtain es' where es': "pattern_of rest = Some es'"
      "es @ [Wildcard] = Placeholder # es'"
      by auto
    then obtain es'' where es'': "es' = es'' @ [Wildcard]"
      by (cases es) auto
    from "1.prems"(3) es'(2) obtain n c where c: "node_at h p = Some n"
      "subsequentPlaceholder n = Some c" "walk h c es' = Some w"
      by (auto split: option.splits)
    from c(3) es'' obtain m where m: "node_at h c = Some m"
      by (cases es'') (auto split: option.splits)
    from "1.prems"(1) c(1,2) m have "placeholderCount m = placeholderCount n + 1"
      unfolding counted_def by blast
    then have "m\<lparr>placeholderCount := placeholderCount n + 1\<rparr> = m" by simp
    moreover have "h ! c = Some m" using m by (simp add: node_at_def split: if_splits)
    ultimately have "h[c := Some (m\<lparr>placeholderCount := placeholderCount n + 1\<rparr>)] = h"
      by (metis list_update_id)
    then have ap: "appendPlaceholder uninit h p = Defined (c, h)"
      using c(1,2) m by (simp add: appendPlaceholder_def)
    from "1.IH"(1) [OF True ap refl "1.prems"(1) es'(1) [unfolded es''] c(3) [unfolded es'']]
    show ?thesis using True ap by simp
  next
    case False
    with "1.prems"(2) obtain b bs es' where b: "literalHexStrToBytes [c1, c2] = b # bs"
      "pattern_of rest = Some es'" "es @ [Wildcard] = Concrete b # es'"
      by (auto split: list.splits)
    then obtain es'' where es'': "es' = es'' @ [Wildcard]"
      by (cases es) auto
    from "1.prems"(3) b(3) obtain n c where c: "node_at h p = Some n"
      "map_of (subsequentByte n) b = Some c" "walk h c es' = Some w"
      by (auto split: option.splits)
    have ab: "appendByte uninit h p b = Defined (c, h)"
      using c(1,2) by (simp add: appendByte_def)
    from "1.IH"(2) [OF False b(1) ab refl "1.prems"(1) b(2) [unfolded es''] c(3) [unfolded es'']]
    show ?thesis using False b(1) ab by simp
  qed
next
  case (2 uninit h p c)
  then have "c = CHR ''*''" "es = []" by (auto split: if_splits)
  with "2.prems"(3) obtain n w' where "node_at h p = Some n" "subsequentWildcard n = Some w'"
    by (auto split: option.splits)
  then have "appendWildcard h p = Defined (Inl DuplicateWildcard)"
    by (simp add: appendWildcard_def)
  with \<open>c = CHR ''*''\<close> show ?case by simp
next
  case (3 uninit h p)
  then show ?case by simp
qed

text \<open>
  No node of a tidy store has a response, so a lookup in it finds none: it is undefined
  or returns nothing.
\<close>

lemma findBestLoop_unbound:
  assumes "unbound h"
  shows "findBestLoop h None items = Defined best \<Longrightarrow> best = None"
proof (induction items)
  case Nil
  then show ?case by simp
next
  case (Cons item items)
  from Cons.prems obtain m n where "getThisOrNextWildcardWithResponse h item = Defined m"
    "node_at h m = Some n"
    by (auto split: result.splits option.splits)
  moreover from this assms have "luaResponse n = None" unfolding unbound_def by blast
  ultimately show ?case using Cons by simp
qed

lemma getValueFromTree_unbound:
  assumes "unbound h"
  shows "getValueFromTree mem h root payload = Undefined
         \<or> getValueFromTree mem h root payload = Defined None"
proof (cases "matchPayload mem h [root] payload")
  case Undefined
  then show ?thesis by (simp add: getValueFromTree_def)
next
  case (Defined cs)
  show ?thesis
  proof (cases "findBestLoop h None cs")
    case Undefined
    with Defined show ?thesis by (simp add: getValueFromTree_def findBestMatchingRequest_def)
  next
    case (Defined best)
    from findBestLoop_unbound [OF assms this] Defined \<open>matchPayload mem h [root] payload = Defined cs\<close>
    show ?thesis by (simp add: getValueFromTree_def findBestMatchingRequest_def)
  qed
qed

lemma buildRequestByteTree_tidy:
  "buildRequestByteTree uninit keys f = Defined (h, ignored) \<Longrightarrow> tidy h"
  using buildLoop_props [OF tidy_root] unfolding buildRequestByteTree_def by blast

lemma lookup_finds_no_response:
  assumes "buildRequestByteTree uninit keys f = Defined (h, ignored)"
  shows "getValueFromTree mem h 0 payload = Undefined
         \<or> getValueFromTree mem h 0 payload = Defined None"
  using buildRequestByteTree_tidy [OF assms] getValueFromTree_unbound
  unfolding tidy_def by blast

text \<open>
  The keys that fail as invalid are the keys with an odd number of characters that do not
  end in \<open>*\<close>, and no others: a pair of characters that are no hexadecimal digits is
  read as a byte.
\<close>

lemma literalHexStrToBytes_pair:
  assumes "c1 \<noteq> CHR '' ''" and "c2 \<noteq> CHR '' ''"
  shows "literalHexStrToBytes [c1, c2] = [word_of_int (strtol [c1, c2] 16)]"
  using assms by (simp add: literalHexStrToBytes_def)

lemma pattern_of_rejects:
  assumes "CHR '' '' \<notin> set k"
  shows "pattern_of k = None \<longleftrightarrow> odd (length k) \<and> last k \<noteq> CHR ''*''"
  using assms
proof (induction k rule: pattern_of.induct)
  case (1 c1 c2 rest)
  then have c: "c1 \<noteq> CHR '' ''" "c2 \<noteq> CHR '' ''" "CHR '' '' \<notin> set rest" by auto
  note pair = literalHexStrToBytes_pair [OF c(1,2)]
  show ?case
  proof (cases "is_REQUEST_PLACEHOLDER [c1, c2]")
    case True
    from "1.IH"(1) [OF True c(3)] True show ?thesis
      by (cases rest) auto
  next
    case False
    from "1.IH"(2) [OF False pair c(3)] False pair show ?thesis
      by (cases rest) auto
  qed
next
  case (2 c)
  show ?case by simp
next
  case 3
  show ?case by simp
qed

lemma cleanupString_no_blank: "CHR '' '' \<notin> set (cleanupString raw)"
  by (simp add: cleanupString_def is_separator_def)

lemma invalid_keys_are_the_odd_keys:
  assumes "addRequestToTree uninit h root (cleanupString raw) = Defined (res, h')"
  shows "res = Inl InvalidPattern \<longleftrightarrow>
           odd (length (cleanupString raw)) \<and> last (cleanupString raw) \<noteq> CHR ''*''"
proof -
  from addRequestToTree_props [OF assms]
  have "res = Inl InvalidPattern \<longleftrightarrow> pattern_of (cleanupString raw) = None"
    by (auto split: option.splits)
  then show ?thesis
    using pattern_of_rejects [OF cleanupString_no_blank, of raw] by simp
qed

text \<open>
  C6, amended: when two keys of the table have the same pattern ending in the wildcard,
  and the construction of the tree has been defined up to the second of them, then
  adding the second one fails with the duplicate wildcard error and leaves the tree as
  it is, whatever keys stand before, between and after the two. The builder then treats
  the key as it treats an invalid one: the key is put on the list of the ignored keys,
  and the loop goes on with the keys after it.
\<close>

theorem C6_duplicate_wildcard_is_logged_and_skipped:
  assumes "pattern_of (cleanupString raw1) = Some (es @ [Wildcard])"
    and "pattern_of (cleanupString raw2) = Some (es @ [Wildcard])"
    and "buildRequestByteTree uninit (before @ raw1 # mid) f = Defined (h, ignored)"
  shows "addRequestToTree uninit h 0 (cleanupString raw2) = Defined (Inl DuplicateWildcard, h)
         \<and> buildRequestByteTree uninit (before @ raw1 # mid @ raw2 # rest) f =
             (case buildLoop uninit f h 0 rest of
                Undefined \<Rightarrow> Undefined
              | Defined (h', ignored') \<Rightarrow>
                  Defined (h', ignored @ (raw2, DuplicateWildcard) # ignored'))"
proof -
  let ?root = "[Some (newNode 0 0 (uninit 0))] :: 'a store"
  from assms(3) obtain h0 ignored0 ignored1 where
    b0: "buildLoop uninit f ?root 0 before = Defined (h0, ignored0)"
    and b1: "buildLoop uninit f h0 0 (raw1 # mid) = Defined (h, ignored1)"
    unfolding buildRequestByteTree_def buildLoop_append [of uninit f _ 0 before "raw1 # mid"]
    by (auto split: result.splits prod.splits)
  from buildLoop_props [OF tidy_root b0] have t0: "tidy h0" by simp
  from buildLoop_Cons [OF b1] obtain res h1 h2 ignored' where
    a: "addRequestToTree uninit h0 0 (cleanupString raw1) = Defined (res, h1)"
    and b2: "buildLoop uninit f h2 0 mid = Defined (h, ignored')"
    and r: "case res of
              Inl e \<Rightarrow> h2 = h1
            | Inr leaf \<Rightarrow> (\<exists>h1'. setLuaResponse h1 leaf (f raw1) = Defined (leaf, h1')
                               \<and> deleteNodes h1' [leaf] = Defined h2)"
    by blast
  note st = build_step [OF t0 a r]
  from st(3) [OF assms(1)] obtain w where
    w2: "walk h2 0 (es @ [Wildcard]) = Some w" "deleted h2 w" by blast
  from buildLoop_props [OF st(1) b2] w2 have t: "tidy h" and w: "walk h 0 (es @ [Wildcard]) = Some w"
    by simp_all
  from t have "counted h" by (simp add: tidy_def)
  from addRequestToTree_duplicate [OF this assms(2) w]
  have dup: "addRequestToTree uninit h 0 (cleanupString raw2) = Defined (Inl DuplicateWildcard, h)" .
  have "before @ raw1 # mid @ raw2 # rest = (before @ raw1 # mid) @ raw2 # rest" by simp
  then have "buildRequestByteTree uninit (before @ raw1 # mid @ raw2 # rest) f =
      (case buildLoop uninit f h 0 (raw2 # rest) of
         Undefined \<Rightarrow> Undefined
       | Defined (h2, ignored2) \<Rightarrow> Defined (h2, ignored @ ignored2))"
    using assms(3) unfolding buildRequestByteTree_def
    by (simp only: buildLoop_append [of uninit f _ 0 "before @ raw1 # mid" "raw2 # rest"]) simp
  moreover have "buildLoop uninit f h 0 (raw2 # rest) =
      (case buildLoop uninit f h 0 rest of
         Undefined \<Rightarrow> Undefined
       | Defined (h', ignored') \<Rightarrow> Defined (h', (raw2, DuplicateWildcard) # ignored'))"
    using dup by (simp add: Let_def)
  ultimately show ?thesis
    using dup by (simp split: result.splits)
qed

theorem C6_duplicate_wildcard_is_logged_and_skipped_witness:
  "pattern_of (cleanupString ''22 *'') = Some ([Concrete 0x22] @ [Wildcard])
   \<and> pattern_of (cleanupString ''22*'') = Some ([Concrete 0x22] @ [Wildcard])
   \<and> buildRequestByteTree (\<lambda>p. False) ([] @ ''22 *'' # [''11 01'']) (\<lambda>k. k) =
       Defined
         ([Some ((newNode 0 0 False)\<lparr>subsequentByte := [(0x22, 1), (0x11, 3)]\<rparr>),
           Some ((newNode 0 1 False)\<lparr>subsequentWildcard := Some 2\<rparr>),
           None,
           Some ((newNode 0 1 False)\<lparr>subsequentByte := [(0x01, 4)]\<rparr>),
           None], [])
   \<and> addRequestToTree (\<lambda>p. False)
         ([Some ((newNode 0 0 False)\<lparr>subsequentByte := [(0x22, 1), (0x11, 3)]\<rparr>),
           Some ((newNode 0 1 False)\<lparr>subsequentWildcard := Some 2\<rparr>),
           None,
           Some ((newNode 0 1 False)\<lparr>subsequentByte := [(0x01, 4)]\<rparr>),
           None] :: string store) 0 (cleanupString ''22*'') =
       Defined
         (Inl DuplicateWildcard,
          [Some ((newNode 0 0 False)\<lparr>subsequentByte := [(0x22, 1), (0x11, 3)]\<rparr>),
           Some ((newNode 0 1 False)\<lparr>subsequentWildcard := Some 2\<rparr>),
           None,
           Some ((newNode 0 1 False)\<lparr>subsequentByte := [(0x01, 4)]\<rparr>),
           None])
   \<and> buildRequestByteTree (\<lambda>p. False) ([] @ ''22 *'' # [''11 01''] @ ''22*'' # [''10 02''])
         (\<lambda>k. k) =
       Defined
         ([Some ((newNode 0 0 False)\<lparr>subsequentByte := [(0x22, 1), (0x11, 3), (0x10, 5)]\<rparr>),
           Some ((newNode 0 1 False)\<lparr>subsequentWildcard := Some 2\<rparr>),
           None,
           Some ((newNode 0 1 False)\<lparr>subsequentByte := [(0x01, 4)]\<rparr>),
           None,
           Some ((newNode 0 1 False)\<lparr>subsequentByte := [(0x02, 6)]\<rparr>),
           None], [] @ [(''22*'', DuplicateWildcard)])"
proof -
  have p1: "pattern_of (cleanupString ''22 *'') = Some ([Concrete 0x22] @ [Wildcard])"
    by code_simp
  have p2: "pattern_of (cleanupString ''22*'') = Some ([Concrete 0x22] @ [Wildcard])"
    by code_simp
  have b: "buildRequestByteTree (\<lambda>p. False) ([] @ ''22 *'' # [''11 01'']) (\<lambda>k. k) =
       Defined
         ([Some ((newNode 0 0 False)\<lparr>subsequentByte := [(0x22, 1), (0x11, 3)]\<rparr>),
           Some ((newNode 0 1 False)\<lparr>subsequentWildcard := Some 2\<rparr>),
           None,
           Some ((newNode 0 1 False)\<lparr>subsequentByte := [(0x01, 4)]\<rparr>),
           None], [])"
    by code_simp
  have r: "buildLoop (\<lambda>p. False) (\<lambda>k. k)
         [Some ((newNode 0 0 False)\<lparr>subsequentByte := [(0x22, 1), (0x11, 3)]\<rparr>),
          Some ((newNode 0 1 False)\<lparr>subsequentWildcard := Some 2\<rparr>),
          None,
          Some ((newNode 0 1 False)\<lparr>subsequentByte := [(0x01, 4)]\<rparr>),
          None] 0 [''10 02''] =
       Defined
         ([Some ((newNode 0 0 False)\<lparr>subsequentByte := [(0x22, 1), (0x11, 3), (0x10, 5)]\<rparr>),
           Some ((newNode 0 1 False)\<lparr>subsequentWildcard := Some 2\<rparr>),
           None,
           Some ((newNode 0 1 False)\<lparr>subsequentByte := [(0x01, 4)]\<rparr>),
           None,
           Some ((newNode 0 1 False)\<lparr>subsequentByte := [(0x02, 6)]\<rparr>),
           None], [])"
    by code_simp
  note c = C6_duplicate_wildcard_is_logged_and_skipped [OF p1 p2 b, of "[''10 02'']"]
  from c [THEN conjunct1] c [THEN conjunct2] show ?thesis
    by (simp only: p1 p2 b r result.case prod.case simp_thms)
qed

end
